theory Spec2Isabelle
  imports Main "HOL-Library.Word" "HOL-Library.Monad_Syntax"
begin

unbundle bit_operations_syntax

section \<open>TinyAudioBoot: machine types and build constants\<close>

text \<open>
  The target is an ATtiny85 compiled with avr-gcc: \<open>int\<close> and \<open>size_t\<close> are 16 bits wide,
  a function pointer is a 16-bit word address, \<open>uint8_t\<close>, \<open>uint16_t\<close> and \<open>uint32_t\<close> are
  the words below. Arithmetic on them wraps, as \<open>+\<close>, \<open>-\<close> and \<open>*\<close> on words do.
\<close>

type_synonym u8 = "8 word"
type_synonym u16 = "16 word"
type_synonym u32 = "32 word"

text \<open>
  \<open>SPM_PAGESIZE\<close> comes from the device header \<open>avr/io.h\<close>, which is not part of the
  repository; for the ATtiny85 it is 64 bytes (the source says so at the EEPROM command:
  "spm pagesize (64)"). The other constants are the macros of \<open>TinyAudioBoot.c\<close>.
\<close>

definition SPM_PAGESIZE :: nat where
  "SPM_PAGESIZE = 64"

definition BOOTLOADER_ADDRESS :: nat where
  "BOOTLOADER_ADDRESS = 0x1BC0"

definition RJMP :: u16 where
  "RJMP = 0xC000 - 1"

text \<open>\<open>BOOTLOADER_STARTADDRESS - sizeof (start_appl_main)\<close>, the pointer being two bytes.\<close>

definition BOOTLOADER_FUNC_ADDRESS :: u16 where
  "BOOTLOADER_FUNC_ADDRESS = of_nat (BOOTLOADER_ADDRESS - 2)"

definition DATAPAGESTART :: nat where
  "DATAPAGESTART = 7"

definition FRAMESIZE :: nat where
  "FRAMESIZE = SPM_PAGESIZE + DATAPAGESTART"

text \<open>Frame indices and command codes.\<close>

definition COMMAND :: nat where "COMMAND = 0"
definition PAGEINDEXLOW :: nat where "PAGEINDEXLOW = 1"
definition PAGEINDEXHIGH :: nat where "PAGEINDEXHIGH = 2"
definition LENGTHLOW :: nat where "LENGTHLOW = 3"

definition NOCOMMAND :: u8 where "NOCOMMAND = 0"
definition TESTCOMMAND :: u8 where "TESTCOMMAND = 1"
definition PROGCOMMAND :: u8 where "PROGCOMMAND = 2"
definition RUNCOMMAND :: u8 where "RUNCOMMAND = 3"
definition EEPROMCOMMAND :: u8 where "EEPROMCOMMAND = 4"

text \<open>\<open>LEDPORT\<close> is \<open>1 << PB1\<close>, the audio input \<open>1 << PB3\<close>, the boot-check pin \<open>1 << PB0\<close>.\<close>

definition LEDPORT :: u8 where "LEDPORT = 2"
definition INPUTAUDIOPIN :: u8 where "INPUTAUDIOPIN = 8"
definition BOOTCHECKPIN :: u8 where "BOOTCHECKPIN = 1"

section \<open>The machine state\<close>

text \<open>
  Program memory is organised in 16-bit words; \<open>flash s j\<close> is the word at word address
  \<open>j\<close> (byte addresses \<open>2 * j\<close> and \<open>2 * j + 1\<close>, low byte first). The device decodes
  only the address bits it has; the model keeps every address apart, which is the same on
  all addresses below the end of the flash, the only ones the program uses.
  \<open>pagebuf\<close> is the temporary page buffer of the self-programming hardware, by word offset
  inside the page. \<open>FrameData s i\<close> is the byte at \<open>FrameData + i\<close> in RAM: the array
  proper is \<open>i < FRAMESIZE\<close>, and a read beyond it (the EEPROM command can make one)
  returns whatever RAM holds there. \<open>ram_after_appl s k\<close> is the 16-bit word \<open>k\<close> words
  after the variable \<open>start_appl_main\<close>, for \<open>k > 0\<close>.
\<close>

record state =
  flash :: "nat \<Rightarrow> u16"
  pagebuf :: "nat \<Rightarrow> u16"
  eeprom :: "nat \<Rightarrow> u8"
  EEAR :: u16
  EEDR :: u8
  FrameData :: "nat \<Rightarrow> u8"
  start_appl_main :: u16
  ram_after_appl :: "nat \<Rightarrow> u16"
  DDRB :: u8
  PORTB :: u8
  TCCR0B :: u8
  SREG_I :: bool

section \<open>EEPROM\<close>

text \<open>
  \<open>eeprom_write\<close>, lines 270-290. The wait on \<open>EEPE\<close> polls a flag the hardware clears
  when the previous write is done; it is taken to end. Setting \<open>EEMPE\<close> and \<open>EEPE\<close>
  stores \<open>EEDR\<close> at \<open>EEAR\<close>.
\<close>

definition eeprom_write :: "u16 \<Rightarrow> u8 \<Rightarrow> state \<Rightarrow> state" where
  "eeprom_write address data s =
     (let s1 = (if address < 512 then s\<lparr>EEAR := address\<rparr> else s\<lparr>EEAR := 511\<rparr>);
          s2 = s1\<lparr>EEDR := data\<rparr>
      in s2\<lparr>eeprom := (eeprom s2)(unat (EEAR s2) := EEDR s2)\<rparr>)"

section \<open>Program memory\<close>

text \<open>
  Modelled from the spec: the self-programming primitives of \<open>avr/boot.h\<close> (avr-libc) are
  not part of the repository. As the specification describes program memory (sections 3
  and 4.3) and as the library documents them: an erase destroys the whole page, which
  then reads \<open>0xFFFF\<close> in every word (\<open>boot_page_erase\<close>); words are put one by one into
  the temporary page buffer, at the word offset of their byte address inside the page
  (\<open>boot_page_fill\<close>); and the page write commits the buffer to the page that contains
  the address (\<open>boot_page_write\<close>). \<open>boot_spm_busy_wait\<close>, \<open>eeprom_busy_wait\<close> and
  \<open>boot_rww_enable\<close> wait for the hardware and change nothing that is modelled.
\<close>

definition boot_page_fill :: "u32 \<Rightarrow> u16 \<Rightarrow> state \<Rightarrow> state" where
  "boot_page_fill address w s =
     s\<lparr>pagebuf := (pagebuf s)((unat address mod SPM_PAGESIZE) div 2 := w)\<rparr>"

definition boot_page_erase :: "u32 \<Rightarrow> state \<Rightarrow> state" where
  "boot_page_erase address s =
     s\<lparr>flash := (\<lambda>j. if (2 * j) div SPM_PAGESIZE = unat address div SPM_PAGESIZE
                      then 0xFFFF else flash s j)\<rparr>"

definition boot_page_write :: "u32 \<Rightarrow> state \<Rightarrow> state" where
  "boot_page_write address s =
     s\<lparr>flash := (\<lambda>j. if (2 * j) div SPM_PAGESIZE = unat address div SPM_PAGESIZE
                      then pagebuf s (j mod (SPM_PAGESIZE div 2)) else flash s j)\<rparr>"

text \<open>
  Reading program memory: the byte at a byte address is the low or the high half of its
  word; \<open>pgm_read_word\<close> reads two consecutive bytes, low byte first.
\<close>

definition pgm_read_byte :: "state \<Rightarrow> nat \<Rightarrow> u8" where
  "pgm_read_byte s a =
     (if even a then ucast (flash s (a div 2)) else ucast (drop_bit 8 (flash s (a div 2))))"

definition pgm_read_word :: "state \<Rightarrow> u16 \<Rightarrow> u16" where
  "pgm_read_word s addr =
     ucast (pgm_read_byte s (unat addr)) OR push_bit 8 (ucast (pgm_read_byte s (unat addr + 1)))"

text \<open>
  The macros \<open>boot_program_page_fill\<close> and \<open>boot_program_page_erase_write\<close>, lines
  400-425: each saves the status register, disables interrupts, does its work and puts
  the status register back.
\<close>

definition boot_program_page_fill :: "u16 \<Rightarrow> u16 \<Rightarrow> state \<Rightarrow> state" where
  "boot_program_page_fill byteaddr w s =
     (let sreg = SREG_I s;
          s1 = s\<lparr>SREG_I := False\<rparr>;
          s2 = boot_page_fill (ucast byteaddr) w s1
      in s2\<lparr>SREG_I := sreg\<rparr>)"

definition boot_program_page_erase_write :: "u16 \<Rightarrow> state \<Rightarrow> state" where
  "boot_program_page_erase_write pageaddr s =
     (let sreg = SREG_I s;
          s1 = s\<lparr>SREG_I := False\<rparr>;
          s2 = boot_page_erase (ucast pageaddr) s1;
          s3 = boot_page_write (ucast pageaddr) s2
      in s3\<lparr>SREG_I := sreg\<rparr>)"

text \<open>
  \<open>pgm_write_block\<close>, lines 432-460. \<open>block k\<close> is the word \<open>block[k]\<close> the pointer
  reaches; \<open>n\<close> counts the words read so far (\<open>*block++\<close>). \<open>sz\<close> is the parameter
  \<open>size\<close>, a \<open>size_t\<close>, so \<open>size -= sizeof (uint16_t)\<close> wraps below zero.
\<close>

function pgm_write_loop ::
  "u16 \<Rightarrow> u16 \<Rightarrow> (nat \<Rightarrow> u16) \<Rightarrow> nat \<Rightarrow> nat \<Rightarrow> u16 \<Rightarrow> state \<Rightarrow> state" where
  "pgm_write_loop flash_addr start_addr block idx n sz s =
     (if idx < SPM_PAGESIZE div 2 then
        (let addr = start_addr + 2 * of_nat idx in
         if addr \<ge> flash_addr \<and> sz > 0
         then pgm_write_loop flash_addr start_addr block (idx + 1) (n + 1) (sz - 2)
                (boot_program_page_fill addr (block n) s)
         else pgm_write_loop flash_addr start_addr block (idx + 1) n sz
                (boot_program_page_fill addr (pgm_read_word s addr) s))
      else s)"
  by pat_completeness auto
termination
  by (relation "measure (\<lambda>(fa, sa, b, idx, n, sz, s). SPM_PAGESIZE div 2 - idx)") auto

declare pgm_write_loop.simps [simp del]

definition pgm_write_block :: "u16 \<Rightarrow> (nat \<Rightarrow> u16) \<Rightarrow> u16 \<Rightarrow> state \<Rightarrow> state" where
  "pgm_write_block flash_addr block sz s =
     (let start_addr = (flash_addr div of_nat SPM_PAGESIZE) * of_nat SPM_PAGESIZE;
          s1 = pgm_write_loop flash_addr start_addr block 0 0 sz s
      in boot_program_page_erase_write start_addr s1)"

text \<open>
  \<open>boot_program_page\<close>, lines 471-504. \<open>buf\<close> advances by two bytes in every round, as
  \<open>i\<close> does, so the round at \<open>i\<close> reads \<open>buf[i]\<close> and \<open>buf[i + 1]\<close>. The sum
  \<open>w += (*buf++) << 8\<close> is stored in a \<open>uint16_t\<close>.
\<close>

function boot_program_loop :: "u32 \<Rightarrow> (nat \<Rightarrow> u8) \<Rightarrow> nat \<Rightarrow> state \<Rightarrow> state" where
  "boot_program_loop page buf i s =
     (if i < SPM_PAGESIZE then
        (let w = ucast (buf i) + push_bit 8 (ucast (buf (i + 1))) :: u16 in
         if page = 0 \<and> i = 0
         then boot_program_loop page buf (i + 2)
                (boot_page_fill (page + of_nat i) (0xC000 + of_nat (BOOTLOADER_ADDRESS div 2) - 1)
                   (s\<lparr>start_appl_main := w - RJMP\<rparr>))
         else boot_program_loop page buf (i + 2) (boot_page_fill (page + of_nat i) w s))
      else s)"
  by pat_completeness auto
termination
  by (relation "measure (\<lambda>(page, buf, i, s). SPM_PAGESIZE - i)") auto

declare boot_program_loop.simps [simp del]

definition boot_program_page :: "u32 \<Rightarrow> (nat \<Rightarrow> u8) \<Rightarrow> state \<Rightarrow> state" where
  "boot_program_page page buf s =
     (let s1 = s\<lparr>SREG_I := False\<rparr>;
          s2 = boot_page_erase page s1;
          s3 = boot_program_loop page buf 0 s2
      in boot_page_write page s3)"

section \<open>Leaving the bootloader\<close>

text \<open>
  A call through \<open>start_appl_main\<close> hands the processor to the application: \<open>Jump x s\<close>
  says that control went to word address \<open>x\<close> with the machine in state \<open>s\<close>.
  \<open>Continue s\<close> says that the bootloader goes on with state \<open>s\<close>.
\<close>

datatype outcome = Continue state | Jump u16 state

definition LEDON :: "state \<Rightarrow> state" where
  "LEDON s = s\<lparr>PORTB := PORTB s OR LEDPORT\<rparr>"

definition LEDOFF :: "state \<Rightarrow> state" where
  "LEDOFF s = s\<lparr>PORTB := PORTB s AND NOT LEDPORT\<rparr>"

definition TOGGLELED :: "state \<Rightarrow> state" where
  "TOGGLELED s = s\<lparr>PORTB := PORTB s XOR LEDPORT\<rparr>"

definition resetRegister :: "state \<Rightarrow> state" where
  "resetRegister s = s\<lparr>DDRB := 0, SREG_I := False, TCCR0B := 0\<rparr>"

text \<open>\<open>exitBootloader\<close>, lines 514-524: \<open>memcpy_P\<close> reads the two bytes of the pointer.\<close>

definition exitBootloader :: "state \<Rightarrow> outcome" where
  "exitBootloader s =
     (let s1 = s\<lparr>start_appl_main := pgm_read_word s BOOTLOADER_FUNC_ADDRESS\<rparr>
      in if start_appl_main s1 \<noteq> 0
         then Jump (start_appl_main s1) (resetRegister s1)
         else Continue s1)"

text \<open>
  \<open>runProgramm\<close>, lines 526-535. The block is the address of \<open>start_appl_main\<close> read as
  \<open>uint16_t *\<close>: its first word is the pointer, the following ones are the RAM behind it.
\<close>

definition appl_block :: "state \<Rightarrow> nat \<Rightarrow> u16" where
  "appl_block s k = (if k = 0 then start_appl_main s else ram_after_appl s k)"

definition runProgramm :: "state \<Rightarrow> outcome" where
  "runProgramm s =
     (let s1 = resetRegister s;
          s2 = pgm_write_block BOOTLOADER_FUNC_ADDRESS (appl_block s1) 2 s1
      in Jump (start_appl_main s2) s2)"

section \<open>The command interpreter\<close>

text \<open>
  The EEPROM loop, lines 663-668: \<open>i\<close> stays below \<open>data_length\<close>, at most 255, so
  the \<open>uint8_t\<close> counter never wraps; \<open>address + i\<close> is computed in \<open>int\<close> and passed
  as \<open>uint16_t\<close>.
\<close>

definition eeprom_arg :: "u8 \<Rightarrow> nat \<Rightarrow> u16" where
  "eeprom_arg address i = ucast address + of_nat i"

function eeprom_loop :: "u8 \<Rightarrow> u8 \<Rightarrow> (nat \<Rightarrow> u8) \<Rightarrow> nat \<Rightarrow> state \<Rightarrow> state" where
  "eeprom_loop address data_length buf i s =
     (if i < unat data_length
      then eeprom_loop address data_length buf (i + 1)
             (eeprom_write (eeprom_arg address i) (buf i) s)
      else s)"
  by pat_completeness auto
termination
  by (relation "measure (\<lambda>(a, len, buf, i, s). unat len - i)") auto

declare eeprom_loop.simps [simp del]

definition clear_command :: "state \<Rightarrow> state" where
  "clear_command s = s\<lparr>FrameData := (FrameData s)(COMMAND := NOCOMMAND)\<rparr>"

definition prog_address :: "state \<Rightarrow> u16" where
  "prog_address s =
     (let pageNumber = push_bit 8 (ucast (FrameData s PAGEINDEXHIGH))
                       + ucast (FrameData s PAGEINDEXLOW) :: u16
      in of_nat SPM_PAGESIZE * pageNumber)"

definition eeprom_address :: "state \<Rightarrow> u8" where
  "eeprom_address s = (let pageNumber = FrameData s PAGEINDEXLOW in of_nat SPM_PAGESIZE * pageNumber)"

text \<open>
  The \<open>switch\<close> of \<open>a_main\<close>, lines 633-678, with the statement that follows it
  (\<open>FrameData[COMMAND] = NOCOMMAND\<close>). The payload pointer is \<open>FrameData + DATAPAGESTART\<close>;
  neither programming routine writes to \<open>FrameData\<close>.
\<close>

definition payload :: "state \<Rightarrow> nat \<Rightarrow> u8" where
  "payload s i = FrameData s (DATAPAGESTART + i)"

definition dispatch :: "state \<Rightarrow> outcome" where
  "dispatch s =
     (if FrameData s COMMAND = PROGCOMMAND then
        (let address = prog_address s in
         if address < of_nat BOOTLOADER_ADDRESS
         then Continue (clear_command (TOGGLELED (boot_program_page (ucast address) (payload s) s)))
         else Continue (clear_command s))
      else if FrameData s COMMAND = RUNCOMMAND then runProgramm s
      else if FrameData s COMMAND = EEPROMCOMMAND then
        (let data_length = FrameData s LENGTHLOW;
             address = eeprom_address s;
             s1 = eeprom_loop address data_length (payload s) 0 s;
             s2 = LEDOFF s1
         in case exitBootloader s2 of
              Jump x s3 \<Rightarrow> Jump x s3
            | Continue s3 \<Rightarrow> Continue (clear_command s3))
      else Continue (clear_command s))"

section \<open>Entry\<close>

text \<open>
  The boot-check loop of \<open>a_main\<close>, lines 548-570 (\<open>WONKYSTUFF\<close> defined, \<open>MMO\<close> not).
  \<open>pinb k\<close> is the value the \<open>k\<close>-th read of \<open>PINB\<close> in the loop returns; the loop reads
  the port once per round and counts the rounds in \<open>lPress\<close>, so the round with counter
  \<open>lPress\<close> sees \<open>pinb lPress\<close>. The counter is a \<open>uint32_t\<close> and stays below
  \<open>3000002\<close>. The request is asserted when the pin reads low. \<open>a_main_entry\<close> is
  \<open>a_main\<close> up to the command interpreter: its result \<open>Continue\<close> says that the program
  goes on to the command loop, \<open>Jump\<close> that \<open>exitBootloader\<close> started the application.
\<close>

function bootcheck_loop :: "(nat \<Rightarrow> u8) \<Rightarrow> nat \<Rightarrow> state \<Rightarrow> nat \<times> state" where
  "bootcheck_loop pinb lPress s =
     (if pinb lPress AND BOOTCHECKPIN = 0 then
        (let s1 = LEDON s in
         if lPress + 1 > 3000000 then (lPress + 1, s1)
         else bootcheck_loop pinb (lPress + 1) s1)
      else (lPress, s))"
  by pat_completeness auto
termination
  by (relation "measure (\<lambda>(pinb, lPress, s). 3000001 - lPress)") auto

declare bootcheck_loop.simps [simp del]

definition a_main_entry :: "(nat \<Rightarrow> u8) \<Rightarrow> state \<Rightarrow> outcome" where
  "a_main_entry pinb s =
     (case bootcheck_loop pinb 0 s of
        (lPress, s1) \<Rightarrow>
          (let s2 = LEDOFF s1 in
           if lPress < 3000000 then exitBootloader s2 else Continue s2))"

section \<open>The signal decoder\<close>

text \<open>
  \<open>receiveFrame\<close> polls two hardware registers: the input port \<open>PINB\<close> (through the macro
  \<open>PINVALUE\<close>, \<open>PINB & INPUTAUDIOPIN\<close>) and the timer \<open>TCNT0\<close> (\<open>TIMER\<close>). A signal is
  what these reads return, in the order the program makes them: \<open>pin_reads\<close> are the
  successive values of \<open>PINB\<close>, \<open>timer_reads\<close> the successive values of \<open>TIMER\<close>. Every
  read takes the next value; when the values run out the routine is still waiting, which
  is the result \<open>None\<close>. The writes \<open>TIMER = 0\<close> change what the hardware returns later;
  the model lets every sequence of timer values occur, so it covers them.
\<close>

record signal =
  pin_reads :: "u8 list"
  timer_reads :: "u8 list"

definition read_pin :: "signal \<Rightarrow> (u8 \<times> signal) option" where
  "read_pin g =
     (case pin_reads g of
        [] \<Rightarrow> None
      | v # vs \<Rightarrow> Some (v AND INPUTAUDIOPIN, g\<lparr>pin_reads := vs\<rparr>))"

definition read_timer :: "signal \<Rightarrow> (u8 \<times> signal) option" where
  "read_timer g =
     (case timer_reads g of
        [] \<Rightarrow> None
      | v # vs \<Rightarrow> Some (v, g\<lparr>timer_reads := vs\<rparr>))"

text \<open>\<open>while (p == PINVALUE);\<close> reads the port until it differs from \<open>p\<close>.\<close>

fun edge_reads :: "u8 \<Rightarrow> u8 list \<Rightarrow> u8 list option" where
  "edge_reads p [] = None"
| "edge_reads p (v # vs) = (if p = v AND INPUTAUDIOPIN then edge_reads p vs else Some vs)"

definition wait_for_edge :: "u8 \<Rightarrow> signal \<Rightarrow> signal option" where
  "wait_for_edge p g = map_option (\<lambda>vs. g\<lparr>pin_reads := vs\<rparr>) (edge_reads p (pin_reads g))"

text \<open>
  \<open>while (TIMER < delayTime);\<close> reads the timer until it has reached \<open>delayTime\<close>; the
  comparison is unsigned, the timer value widened to 16 bits.
\<close>

fun delay_reads :: "u16 \<Rightarrow> u8 list \<Rightarrow> u8 list option" where
  "delay_reads delayTime [] = None"
| "delay_reads delayTime (v # vs) =
     (if ucast v < delayTime then delay_reads delayTime vs else Some vs)"

definition wait_delay :: "u16 \<Rightarrow> signal \<Rightarrow> signal option" where
  "wait_delay delayTime g =
     map_option (\<lambda>vs. g\<lparr>timer_reads := vs\<rparr>) (delay_reads delayTime (timer_reads g))"

text \<open>
  The synchronisation loop, lines 324-338: sixteen edges, the timer values of the last
  eight added up in \<open>time\<close>.
\<close>

function sync_loop :: "nat \<Rightarrow> u8 \<Rightarrow> u16 \<Rightarrow> signal \<Rightarrow> (u16 \<times> u8 \<times> signal) option" where
  "sync_loop n p time g =
     (if n < 16 then
        do {
          g1 \<leftarrow> wait_for_edge p g;
          (t, g2) \<leftarrow> read_timer g1;
          (p', g3) \<leftarrow> read_pin g2;
          sync_loop (n + 1) p' (if n \<ge> 8 then time + ucast t else time) g3
        }
      else Some (time, p, g))"
  by pat_completeness auto
termination
  by (relation "measure (\<lambda>(n, p, time, g). 16 - n)") auto

declare sync_loop.simps [simp del]

text \<open>
  The wait for the start bit, lines 346-360. The counter \<open>counter\<close> of the source is
  written and never read; it is left out.
\<close>

function startbit_loop :: "u8 \<Rightarrow> u16 \<Rightarrow> signal \<Rightarrow> signal option" where
  "startbit_loop p delayTime g =
     do {
       (v, g1) \<leftarrow> read_pin g;
       if p = v then
         do {
           g2 \<leftarrow> wait_for_edge p g1;
           (p', g3) \<leftarrow> read_pin g2;
           g4 \<leftarrow> wait_delay delayTime g3;
           startbit_loop p' delayTime g4
         }
       else Some g1
     }"
  by pat_completeness auto
termination
proof (relation "measure (\<lambda>(p, d, g). length (pin_reads g))", goal_cases)
  case 1
  show ?case by simp
next
  case (2 p delayTime g x v g1 g2 y p' g3 g4)
  have edge: "length ws < length vs" if "edge_reads q vs = Some ws" for q vs ws
    using that by (induction vs) (auto split: if_splits)
  have pin: "length (pin_reads h') < length (pin_reads h)" if "read_pin h = Some (u, h')" for h u h'
    using that by (auto simp add: read_pin_def split: list.splits)
  have wait: "length (pin_reads h') < length (pin_reads h)" if "wait_for_edge q h = Some h'"
    for q h h'
    using that edge by (auto simp add: wait_for_edge_def)
  have delay: "pin_reads h' = pin_reads h" if "wait_delay d h = Some h'" for d h h'
    using that by (auto simp add: wait_delay_def)
  from 2 show ?case
    using pin [of g v g1] wait [of p g1 g2] pin [of g2 p' g3] delay [of delayTime g3 g4]
    by simp
qed

declare startbit_loop.simps [simp del]

text \<open>
  The data bits, lines 365-392. \<open>k\<close> counts the bits left in the current byte and
  \<open>dataPointer\<close> is the index of that byte; the shift \<open>FrameData[dataPointer] << 1\<close> is
  stored in a \<open>uint8_t\<close>, so the top bit falls out.
\<close>

function receive_bits ::
  "nat \<Rightarrow> u8 \<Rightarrow> u8 \<Rightarrow> u8 \<Rightarrow> u16 \<Rightarrow> (nat \<Rightarrow> u8) \<Rightarrow> signal \<Rightarrow> ((nat \<Rightarrow> u8) \<times> signal) option" where
  "receive_bits n k dataPointer p delayTime frame g =
     (if n < FRAMESIZE * 8 then
        do {
          g1 \<leftarrow> wait_for_edge p g;
          (p1, g2) \<leftarrow> read_pin g1;
          g3 \<leftarrow> wait_delay delayTime g2;
          (t, g4) \<leftarrow> read_pin g3;
          let frame1 = frame(unat dataPointer := push_bit 1 (frame (unat dataPointer)));
              frame2 = (if p1 \<noteq> t
                        then frame1(unat dataPointer := frame1 (unat dataPointer) OR 1)
                        else frame1)
          in if k - 1 = 0
             then receive_bits (n + 1) 8 (dataPointer + 1) t delayTime frame2 g4
             else receive_bits (n + 1) (k - 1) dataPointer t delayTime frame2 g4
        }
      else Some (frame, g))"
  by pat_completeness auto
termination
  by (relation "measure (\<lambda>(n, k, dp, p, d, frame, g). FRAMESIZE * 8 - n)") auto

declare receive_bits.simps [simp del]

text \<open>
  \<open>receiveFrame\<close>, lines 303-394, in two parts: \<open>preamble\<close> is everything before the data
  bits (it yields the last pin level \<open>p\<close>, \<open>delayTime\<close> and the rest of the signal), and
  \<open>receiveFrame\<close> reads the data bits after it and returns \<open>true\<close>, which is \<open>(1==1)\<close>.
\<close>

definition true :: u8 where
  "true = 1"

definition preamble :: "signal \<Rightarrow> (u8 \<times> u16 \<times> signal) option" where
  "preamble g =
     do {
       (p, g1) \<leftarrow> read_pin g;
       g2 \<leftarrow> wait_for_edge p g1;
       (p, g3) \<leftarrow> read_pin g2;
       (time, p, g4) \<leftarrow> sync_loop 0 p 0 g3;
       let delayTime = time * 3 div 4 div 8 in
       do {
         g5 \<leftarrow> wait_delay delayTime g4;
         g6 \<leftarrow> startbit_loop p delayTime g5;
         (p, g7) \<leftarrow> read_pin g6;
         Some (p, delayTime, g7)
       }
     }"

definition receiveFrame ::
  "(nat \<Rightarrow> u8) \<Rightarrow> signal \<Rightarrow> (u8 \<times> (nat \<Rightarrow> u8) \<times> signal) option" where
  "receiveFrame frame g =
     do {
       (p, delayTime, g7) \<leftarrow> preamble g;
       (frame', g8) \<leftarrow> receive_bits 0 8 0 p delayTime frame g7;
       Some (true, frame', g8)
     }"

text \<open>
  One round of the command loop of \<open>a_main\<close>, lines 612-680: a frame is received into
  \<open>FrameData\<close>; when \<open>receiveFrame\<close> returns zero the program blinks for ever
  (\<open>Blink\<close>), otherwise the frame is dispatched.
\<close>

datatype loop_result = Blink state | Dispatched outcome

definition command_step :: "state \<Rightarrow> signal \<Rightarrow> (loop_result \<times> signal) option" where
  "command_step s g =
     (case receiveFrame (FrameData s) g of
        None \<Rightarrow> None
      | Some (ok, frame, g') \<Rightarrow>
          (let s1 = s\<lparr>FrameData := frame\<rparr>
           in if ok = 0 then Some (Blink s1, g') else Some (Dispatched (dispatch s1), g')))"

section \<open>Notions the properties are stated with\<close>

text \<open>
  The \<open>k\<close>-th 16-bit word of a byte buffer, low byte first, as \<open>boot_program_page\<close> reads
  its payload.
\<close>

definition le_word :: "(nat \<Rightarrow> u8) \<Rightarrow> nat \<Rightarrow> u16" where
  "le_word buf k = ucast (buf (2 * k)) + push_bit 8 (ucast (buf (2 * k + 1)))"

text \<open>
  The program writes a jump from address 0 to a word address as \<open>RJMP\<close> plus that address
  (line 167: \<open>resetVector = RJMP + BOOTLOADER_ADDRESS / 2\<close>) and reads the target of such a
  word back as the word minus \<open>RJMP\<close> (line 491).
\<close>

definition jump_to :: "u16 \<Rightarrow> u16" where
  "jump_to target = RJMP + target"

definition resetVector :: u16 where
  "resetVector = RJMP + of_nat (BOOTLOADER_ADDRESS div 2)"

definition outcome_state :: "outcome \<Rightarrow> state" where
  "outcome_state out = (case out of Continue s \<Rightarrow> s | Jump x s \<Rightarrow> s)"

definition jump_target :: "outcome \<Rightarrow> u16 option" where
  "jump_target out = (case out of Continue s \<Rightarrow> None | Jump x s \<Rightarrow> Some x)"

text \<open>The 16-bit page number of a frame, as a number.\<close>

definition page_number :: "state \<Rightarrow> nat" where
  "page_number s = 256 * unat (FrameData s PAGEINDEXHIGH) + unat (FrameData s PAGEINDEXLOW)"

text \<open>
  The reads of one round of the data loop, lines 368-379, round after round: the wait for
  the edge, the read of \<open>p\<close>, the wait for \<open>delayTime\<close> and the read of \<open>t\<close>.
  \<open>cell_samples m\<close> collects the pairs \<open>(p, t)\<close> of \<open>m\<close> rounds.
\<close>

fun cell_samples ::
  "nat \<Rightarrow> u8 \<Rightarrow> u16 \<Rightarrow> signal \<Rightarrow> ((u8 \<times> u8) list \<times> signal) option" where
  "cell_samples 0 p delayTime g = Some ([], g)"
| "cell_samples (Suc m) p delayTime g =
     do {
       g1 \<leftarrow> wait_for_edge p g;
       (p1, g2) \<leftarrow> read_pin g1;
       g3 \<leftarrow> wait_delay delayTime g2;
       (t, g4) \<leftarrow> read_pin g3;
       (cells, g') \<leftarrow> cell_samples m t delayTime g4;
       Some ((p1, t) # cells, g')
     }"



text \<open>The bit a cell carries: 1 when its two samples differ.\<close>

definition cell_bit :: "u8 \<times> u8 \<Rightarrow> bool" where
  "cell_bit c = (fst c \<noteq> snd c)"

text \<open>Shifting a list of bits into the frame, the bit with number \<open>n\<close> into byte \<open>n div 8\<close>.\<close>

fun push_bits :: "nat \<Rightarrow> bool list \<Rightarrow> (nat \<Rightarrow> u8) \<Rightarrow> (nat \<Rightarrow> u8)" where
  "push_bits n [] frame = frame"
| "push_bits n (b # bs) frame =
     push_bits (n + 1) bs (frame(n div 8 := push_bit 1 (frame (n div 8)) OR of_bool b))"

text \<open>
  The line code the decoder expects, for test signals: every cell starts with an edge, and
  a cell that carries a 1 has a second edge before the sampling point. \<open>encode_cells p bs\<close>
  lists the port values of the cells of \<open>bs\<close> after the level \<open>p\<close>: the read that shows the
  edge, the sample after the edge and the sample at the sampling point.
\<close>

fun encode_cells :: "u8 \<Rightarrow> bool list \<Rightarrow> u8 list" where
  "encode_cells p [] = []"
| "encode_cells p (b # bs) =
     (let e = p XOR INPUTAUDIOPIN;
          t = (if b then e XOR INPUTAUDIOPIN else e)
      in [e, e, t] @ encode_cells t bs)"

section \<open>Concrete inputs\<close>

definition blank_state :: state where
  "blank_state =
     \<lparr>flash = (\<lambda>_. 0xFFFF), pagebuf = (\<lambda>_. 0xFFFF), eeprom = (\<lambda>_. 0xFF), EEAR = 0, EEDR = 0,
      FrameData = (\<lambda>_. 0), start_appl_main = 0, ram_after_appl = (\<lambda>_. 0),
      DDRB = 0, PORTB = 0, TCCR0B = 0, SREG_I = False\<rparr>"

definition count_block :: "nat \<Rightarrow> u16" where
  "count_block k = of_nat k"

text \<open>
  The boot request is asserted when the boot-check pin reads low
  (\<open>!(PINB & BOOTCHECKPIN)\<close>); \<open>asserted pinb k\<close> says so of the \<open>k\<close>-th read.
\<close>

definition asserted :: "(nat \<Rightarrow> u8) \<Rightarrow> nat \<Rightarrow> bool" where
  "asserted pinb k = (pinb k AND BOOTCHECKPIN = 0)"

text \<open>Frames: the command byte, the page index, the length and the payload.\<close>

definition protected_frame :: "nat \<Rightarrow> u8" where
  "protected_frame i = (if i = 0 then 2 else if i = 1 then 0x6F else 0)"

definition wrap_frame :: "nat \<Rightarrow> u8" where
  "wrap_frame i =
     (if i = 0 then 2 else if i = 1 then 1 else if i = 2 then 4
      else if i = 7 then 0x34 else if i = 8 then 0x12 else 0)"

definition vector_payload :: "nat \<Rightarrow> u8" where
  "vector_payload i = (if i = 0 then 0x0F else if i = 1 then 0xC0 else if i = 2 then 0x55 else 0)"

definition eeprom_frame :: "nat \<Rightarrow> u8" where
  "eeprom_frame i =
     (if i = 0 then 4 else if i = 1 then 0xFF else if i = 3 then 0xFF
      else if i = 7 then 0x11 else 0x22)"

definition vector_frame :: "nat \<Rightarrow> u8" where
  "vector_frame i = (if i = 0 then 2 else if i = 7 then 0x0F else if i = 8 then 0xC0 else 0)"

definition programmed_state :: state where
  "programmed_state = outcome_state (dispatch (blank_state\<lparr>FrameData := vector_frame\<rparr>))"

definition run_state :: state where
  "run_state = programmed_state\<lparr>FrameData := (FrameData programmed_state)(COMMAND := RUNCOMMAND)\<rparr>"

text \<open>
  A flash whose application entry slot is null, and three courses of the boot-check pin:
  never pressed, held for ever, and released after five reads.
\<close>

definition null_entry_state :: state where
  "null_entry_state = blank_state\<lparr>flash := (\<lambda>_. 0)\<rparr>"

definition released_pin :: "nat \<Rightarrow> u8" where
  "released_pin k = BOOTCHECKPIN"

definition held_pin :: "nat \<Rightarrow> u8" where
  "held_pin k = 0"

definition tapped_pin :: "nat \<Rightarrow> u8" where
  "tapped_pin k = (if k < 5 then 0 else BOOTCHECKPIN)"

text \<open>
  A signal that carries a whole frame: two reads for the first edge, sixteen edges of
  synchronisation with a timer value of 40 each (so that \<open>delayTime\<close> is 30), the start
  bit, and the 568 cells of \<open>test_bits\<close>, whose seventh bit is the only 1.
\<close>

definition test_bits :: "bool list" where
  "test_bits = replicate 6 False @ [True] @ replicate 561 False"

definition test_signal :: signal where
  "test_signal =
     \<lparr>pin_reads = [0, 8, 8,
                    0, 0, 8, 8, 0, 0, 8, 8, 0, 0, 8, 8, 0, 0, 8, 8,
                    0, 0, 8, 8, 0, 0, 8, 8, 0, 0, 8, 8, 0, 0, 8, 8,
                    0, 0] @ encode_cells 0 test_bits,
      timer_reads = [40, 40, 40, 40, 40, 40, 40, 40, 40, 40, 40, 40, 40, 40, 40, 40, 30]
                    @ replicate 568 30\<rparr>"

section \<open>Word arithmetic\<close>

lemma unat_u16_lt: "unat (x :: u16) < 65536"
  using unsigned_less [of x, where ?'a = nat] by simp

lemma unat_u8_lt: "unat (x :: u8) < 256"
  using unsigned_less [of x, where ?'a = nat] by simp

lemma unat_u32_lt: "unat (x :: u32) < 4294967296"
  using unsigned_less [of x, where ?'a = nat] by simp

lemma unat_start_addr:
  "unat ((fa div 64) * 64 :: u16) = (unat fa div 64) * 64"
proof -
  have a: "unat (fa div 64) = unat fa div 64" by (simp add: unat_div)
  have "unat fa div 64 * 64 < 65536" using unat_u16_lt [of fa] by simp
  then have "unat ((fa div 64) * 64) = (unat (fa div 64) * unat (64 :: u16)) "
    using a by (simp add: unat_word_ariths take_bit_eq_mod)
  then show ?thesis using a by simp
qed

lemma unat_addr:
  "unat sa + 2 * idx < 65536 \<Longrightarrow> unat (sa + 2 * of_nat idx :: u16) = unat sa + 2 * idx"
  by (simp add: unat_word_ariths unat_of_nat take_bit_eq_mod)

lemma unat_ucast_32: "unat (ucast (x :: u16) :: u32) = unat x"
  using unat_u16_lt [of x] by (simp add: unsigned_ucast_eq take_bit_eq_mod)

lemma unat_ucast_8_16: "unat (ucast (x :: u8) :: u16) = unat x"
  using unat_u8_lt [of x] by (simp add: unsigned_ucast_eq take_bit_eq_mod)

lemma unat_page_add:
  "unat page + i < 4294967296 \<Longrightarrow> unat (page + of_nat i :: u32) = unat page + i"
  by (simp add: unat_word_ariths unat_of_nat take_bit_eq_mod)

lemma unat_bootloader_address: "unat (of_nat BOOTLOADER_ADDRESS :: u16) = BOOTLOADER_ADDRESS"
  by (simp add: BOOTLOADER_ADDRESS_def)

section \<open>The EEPROM writer\<close>

lemma eeprom_write_eeprom:
  "eeprom (eeprom_write address data s) =
     (eeprom s)((if unat address < 512 then unat address else 511) := data)"
  by (simp add: eeprom_write_def Let_def word_less_nat_alt)

text \<open>
  Claim C9. For every call \<open>eeprom_write address value\<close>: when the address is at or above
  the capacity 512 the value is stored at the last valid address 511, when it is below
  512 it is stored at the requested address, and in both cases it is the only cell of the
  EEPROM that changes: the write neither fails nor wraps to a low address. Program memory
  and the frame buffer are not touched.
\<close>

theorem eeprom_write_clamps:
  "eeprom (eeprom_write address data s) =
     (eeprom s)((if unat address < 512 then unat address else 511) := data)
   \<and> flash (eeprom_write address data s) = flash s
   \<and> FrameData (eeprom_write address data s) = FrameData s"
  by (simp add: eeprom_write_eeprom) (simp add: eeprom_write_def Let_def)

lemma unat_eeprom_address:
  "unat (eeprom_address s) = (SPM_PAGESIZE * unat (FrameData s PAGEINDEXLOW)) mod 256"
  by (simp add: eeprom_address_def Let_def SPM_PAGESIZE_def unat_word_ariths take_bit_eq_mod)

lemma unat_eeprom_arg:
  "i < 256 \<Longrightarrow> unat (eeprom_arg address i) = unat address + i"
  using unat_u8_lt [of address]
  by (simp add: eeprom_arg_def unat_word_ariths unat_ucast_8_16 unat_of_nat take_bit_eq_mod)

lemma eeprom_loop_eeprom:
  "eeprom (eeprom_loop address data_length buf i s) =
     fold (\<lambda>i e. e(unat address + i := buf i)) [i..<unat data_length] (eeprom s)"
proof (induction address data_length buf i s rule: eeprom_loop.induct)
  case (1 address data_length buf i s)
  show ?case
  proof (cases "i < unat data_length")
    case False
    then show ?thesis by (subst eeprom_loop.simps) simp
  next
    case True
    then have "i < 256" using unat_u8_lt [of data_length] by simp
    then have a: "unat (eeprom_arg address i) = unat address + i" "unat address + i < 512"
      using unat_u8_lt [of address] by (simp_all add: unat_eeprom_arg)
    have w: "eeprom (eeprom_write (eeprom_arg address i) (buf i) s) = (eeprom s)(unat address + i := buf i)"
      using a by (simp add: eeprom_write_eeprom)
    have u: "[i..<unat data_length] = i # [i + 1..<unat data_length]"
      using True by (simp add: upt_conv_Cons)
    have "eeprom_loop address data_length buf i s =
        eeprom_loop address data_length buf (i + 1) (eeprom_write (eeprom_arg address i) (buf i) s)"
      using True by (subst eeprom_loop.simps) simp
    then have "eeprom (eeprom_loop address data_length buf i s) =
        fold (\<lambda>i e. e(unat address + i := buf i)) [i + 1..<unat data_length]
          (eeprom (eeprom_write (eeprom_arg address i) (buf i) s))"
      using "1.IH" [OF True] by (simp only:)
    then show ?thesis
      unfolding w u by (simp only: fold.simps comp_apply)
  qed
qed

lemma dispatch_eeprom:
  assumes "FrameData s COMMAND = EEPROMCOMMAND"
  shows "eeprom (outcome_state (dispatch s)) =
     eeprom (eeprom_loop (eeprom_address s) (FrameData s LENGTHLOW) (payload s) 0 s)"
  using assms
  by (simp add: dispatch_def EEPROMCOMMAND_def PROGCOMMAND_def RUNCOMMAND_def Let_def
      exitBootloader_def outcome_state_def LEDOFF_def resetRegister_def clear_command_def)

text \<open>
  Claim C10. The EEPROM command computes its base address in 8-bit arithmetic from the
  low page-index byte alone, \<open>(SPM_PAGESIZE * low) mod 256\<close>, and takes its length from
  the low length byte. For every round \<open>i\<close> of its loop the address handed to
  \<open>eeprom_write\<close> is the base plus \<open>i\<close>, at most 510, so \<open>eeprom_write\<close> stores at that
  very address; the EEPROM after the command is the EEPROM before with the payload bytes
  stored one after the other from the base address on, no store clamped.
\<close>

theorem eeprom_command_addresses:
  "unat (eeprom_address s) = (SPM_PAGESIZE * unat (FrameData s PAGEINDEXLOW)) mod 256
   \<and> (i < unat (FrameData s LENGTHLOW) \<longrightarrow>
        unat (eeprom_arg (eeprom_address s) i) = unat (eeprom_address s) + i
        \<and> unat (eeprom_arg (eeprom_address s) i) \<le> 510
        \<and> eeprom (eeprom_write (eeprom_arg (eeprom_address s) i) d s') =
             (eeprom s')(unat (eeprom_address s) + i := d))
   \<and> (FrameData s COMMAND = EEPROMCOMMAND \<longrightarrow>
        eeprom (outcome_state (dispatch s)) =
          fold (\<lambda>i e. e(unat (eeprom_address s) + i := payload s i))
            [0..<unat (FrameData s LENGTHLOW)] (eeprom s))"
proof -
  have "i < unat (FrameData s LENGTHLOW) \<Longrightarrow>
        unat (eeprom_arg (eeprom_address s) i) = unat (eeprom_address s) + i
        \<and> unat (eeprom_arg (eeprom_address s) i) \<le> 510
        \<and> eeprom (eeprom_write (eeprom_arg (eeprom_address s) i) d s') =
             (eeprom s')(unat (eeprom_address s) + i := d)"
  proof -
    assume "i < unat (FrameData s LENGTHLOW)"
    then have i: "i < 255" using unat_u8_lt [of "FrameData s LENGTHLOW"] by simp
    then have a: "unat (eeprom_arg (eeprom_address s) i) = unat (eeprom_address s) + i"
      by (simp add: unat_eeprom_arg)
    have b: "unat (eeprom_address s) + i \<le> 510"
      using i unat_u8_lt [of "eeprom_address s"] by simp
    show ?thesis using a b by (simp add: eeprom_write_eeprom)
  qed
  moreover have "eeprom (outcome_state (dispatch s)) =
          fold (\<lambda>i e. e(unat (eeprom_address s) + i := payload s i))
            [0..<unat (FrameData s LENGTHLOW)] (eeprom s)"
    if "FrameData s COMMAND = EEPROMCOMMAND"
    using dispatch_eeprom [OF that] by (simp only: eeprom_loop_eeprom)
  ultimately show ?thesis
    using unat_eeprom_address [of s] by blast
qed

text \<open>
  The frame \<open>eeprom_frame\<close> has the largest length, 255, and the page index 255, whose
  base address is 192: the last round writes at 446.
\<close>

theorem eeprom_command_addresses_witness:
  "FrameData (blank_state\<lparr>FrameData := eeprom_frame\<rparr>) COMMAND = EEPROMCOMMAND
   \<and> unat (FrameData (blank_state\<lparr>FrameData := eeprom_frame\<rparr>) LENGTHLOW) = 255
   \<and> unat (eeprom_address (blank_state\<lparr>FrameData := eeprom_frame\<rparr>)) = 192
   \<and> unat (eeprom_arg (eeprom_address (blank_state\<lparr>FrameData := eeprom_frame\<rparr>)) 254) = 446
   \<and> eeprom (eeprom_write (eeprom_arg (eeprom_address (blank_state\<lparr>FrameData := eeprom_frame\<rparr>)) 254)
        0x22 blank_state) 446 = 0x22
   \<and> eeprom (outcome_state (dispatch (blank_state\<lparr>FrameData := eeprom_frame\<rparr>))) =
        fold (\<lambda>i e. e(192 + i := payload (blank_state\<lparr>FrameData := eeprom_frame\<rparr>) i))
          [0..<255] (eeprom blank_state)"
proof -
  let ?s = "blank_state\<lparr>FrameData := eeprom_frame\<rparr>"
  have c: "FrameData ?s COMMAND = EEPROMCOMMAND"
    by (simp add: eeprom_frame_def COMMAND_def EEPROMCOMMAND_def)
  have l: "unat (FrameData ?s LENGTHLOW) = 255"
    by (simp add: eeprom_frame_def LENGTHLOW_def)
  have a: "(SPM_PAGESIZE * unat (FrameData ?s PAGEINDEXLOW)) mod 256 = 192"
    by (simp add: eeprom_frame_def PAGEINDEXLOW_def SPM_PAGESIZE_def)
  note T = eeprom_command_addresses [of ?s 254 "0x22" blank_state]
  have 1: "unat (eeprom_address ?s) = 192" using T a by simp
  have 2: "unat (eeprom_arg (eeprom_address ?s) 254) = unat (eeprom_address ?s) + 254"
    and 3: "eeprom (eeprom_write (eeprom_arg (eeprom_address ?s) 254) 0x22 blank_state)
            = (eeprom blank_state)(unat (eeprom_address ?s) + 254 := 0x22)"
    using T l by simp_all
  have 4: "eeprom (outcome_state (dispatch ?s)) =
          fold (\<lambda>i e. e(unat (eeprom_address ?s) + i := payload ?s i))
            [0..<unat (FrameData ?s LENGTHLOW)] (eeprom ?s)"
    using T c by blast
  have 5: "eeprom ?s = eeprom blank_state" by simp
  show ?thesis
    using c l 1 2 3 4 [unfolded l 1 5] by simp
qed

section \<open>The merge write\<close>

lemma pgm_read_word_even:
  "even (unat addr) \<Longrightarrow> pgm_read_word s addr = flash s (unat addr div 2)"
  apply (simp add: pgm_read_word_def pgm_read_byte_def)
  apply (rule bit_word_eqI)
  apply (auto simp add: bit_simps)
  done

lemma boot_program_page_fill_eq:
  "boot_program_page_fill a w s = s\<lparr>pagebuf := (pagebuf s)((unat a mod 64) div 2 := w)\<rparr>"
  by (simp add: boot_program_page_fill_def boot_page_fill_def Let_def unat_ucast_32 SPM_PAGESIZE_def)

lemma pgm_write_loop_frame:
  "\<exists>pb. pgm_write_loop fa sa block idx n sz s = s\<lparr>pagebuf := pb\<rparr>"
proof (induction fa sa block idx n sz s rule: pgm_write_loop.induct)
  case (1 fa sa block idx n sz s)
  show ?case
  proof (cases "idx < SPM_PAGESIZE div 2")
    case False
    then have "pgm_write_loop fa sa block idx n sz s = s\<lparr>pagebuf := pagebuf s\<rparr>"
      by (subst pgm_write_loop.simps) simp
    then show ?thesis by blast
  next
    case True
    show ?thesis
    proof (cases "sa + 2 * of_nat idx \<ge> fa \<and> sz > 0")
      case c: True
      from "1.IH"(1) [OF True refl c] obtain pb where
        "pgm_write_loop fa sa block (idx + 1) (n + 1) (sz - 2)
           (boot_program_page_fill (sa + 2 * of_nat idx) (block n) s)
         = (boot_program_page_fill (sa + 2 * of_nat idx) (block n) s)\<lparr>pagebuf := pb\<rparr>"
        by blast
      then have "pgm_write_loop fa sa block idx n sz s = s\<lparr>pagebuf := pb\<rparr>"
        using True c by (subst pgm_write_loop.simps) (auto simp add: boot_program_page_fill_eq Let_def)
      then show ?thesis by blast
    next
      case c: False
      from "1.IH"(2) [OF True refl c] obtain pb where
        "pgm_write_loop fa sa block (idx + 1) n sz
           (boot_program_page_fill (sa + 2 * of_nat idx) (pgm_read_word s (sa + 2 * of_nat idx)) s)
         = (boot_program_page_fill (sa + 2 * of_nat idx) (pgm_read_word s (sa + 2 * of_nat idx)) s)\<lparr>pagebuf := pb\<rparr>"
        by blast
      then have "pgm_write_loop fa sa block idx n sz s = s\<lparr>pagebuf := pb\<rparr>"
        using True c by (subst pgm_write_loop.simps) (auto simp add: boot_program_page_fill_eq Let_def)
      then show ?thesis by blast
    qed
  qed
qed

lemma fill_index:
  assumes "unat sa mod 64 = 0" "unat sa + 64 \<le> 65536" "idx < 32"
  shows "unat (sa + 2 * of_nat idx :: u16) mod 64 div 2 = idx"
    and "unat (sa + 2 * of_nat idx :: u16) = unat sa + 2 * idx"
    and "(unat sa + 2 * idx) mod 64 div 2 = idx"
proof -
  show a: "unat (sa + 2 * of_nat idx :: u16) = unat sa + 2 * idx"
    using assms by (simp add: unat_addr)
  have "(unat sa + 2 * idx) mod 64 = 2 * idx"
    using assms by (metis (no_types, lifting) mod_add_left_eq add_0 mod_less mult_2 add_less_mono numeral_Bit0)
  then show "unat (sa + 2 * of_nat idx :: u16) mod 64 div 2 = idx"
    and "(unat sa + 2 * idx) mod 64 div 2 = idx"
    using a by simp_all
qed

lemma pgm_write_loop_taken:
  assumes "idx < 32" "fa \<le> sa + 2 * of_nat idx" "0 < sz"
  shows "pgm_write_loop fa sa block idx n sz s =
         pgm_write_loop fa sa block (idx + 1) (n + 1) (sz - 2)
           (s\<lparr>pagebuf := (pagebuf s)(unat (sa + 2 * of_nat idx) mod 64 div 2 := block n)\<rparr>)"
  using assms
  by (subst pgm_write_loop.simps) (simp add: boot_program_page_fill_eq Let_def SPM_PAGESIZE_def)

lemma pgm_write_loop_kept:
  assumes "idx < 32" "\<not> (fa \<le> sa + 2 * of_nat idx \<and> 0 < sz)"
  shows "pgm_write_loop fa sa block idx n sz s =
         pgm_write_loop fa sa block (idx + 1) n sz
           (s\<lparr>pagebuf := (pagebuf s)(unat (sa + 2 * of_nat idx) mod 64 div 2 :=
                 pgm_read_word s (sa + 2 * of_nat idx))\<rparr>)"
  using assms
  by (subst pgm_write_loop.simps) (auto simp add: boot_program_page_fill_eq Let_def SPM_PAGESIZE_def)

lemma pgm_write_loop_done:
  "\<not> idx < 32 \<Longrightarrow> pgm_write_loop fa sa block idx n sz s = s"
  by (subst pgm_write_loop.simps) (simp add: SPM_PAGESIZE_def)

lemma size_step:
  assumes "0 < (sz :: u16)"
  shows "odd (unat sz) \<Longrightarrow> odd (unat (sz - 2))"
    and "even (unat sz) \<Longrightarrow> unat (sz - 2) = unat sz - 2 \<and> 2 \<le> unat sz"
    and "0 < unat sz"
proof -
  show p: "0 < unat sz" using assms by (simp add: word_less_nat_alt)
  have u: "unat (sz - 2) = (if 2 \<le> unat sz then unat sz - 2 else unat sz + 65536 - 2)"
    by (simp add: unat_sub_if_size word_size)
  show "odd (unat sz) \<Longrightarrow> odd (unat (sz - 2))"
    unfolding u by (cases "2 \<le> unat sz") simp_all
  assume "even (unat sz)"
  with p have "2 \<le> unat sz" by presburger
  then show "unat (sz - 2) = unat sz - 2 \<and> 2 \<le> unat sz" using u by simp
qed

text \<open>
  The page buffer after the loop, for any size: a word offset at or after the block's
  address takes the next word of the block as long as the byte count has not reached zero,
  which an odd count never does.
\<close>

lemma pgm_write_loop_pagebuf:
  assumes "unat sa mod 64 = 0" "unat sa + 64 \<le> 65536"
  shows "pagebuf (pgm_write_loop fa sa block idx n sz s) j =
     (if idx \<le> j \<and> j < 32 then
        (if unat fa \<le> unat sa + 2 * j
            \<and> (odd (unat sz) \<or> 2 * (j - max idx ((unat fa - unat sa + 1) div 2)) < unat sz)
         then block (n + (j - max idx ((unat fa - unat sa + 1) div 2)))
         else flash s (unat sa div 2 + j))
      else pagebuf s j)"
  using assms
proof (induction fa sa block idx n sz s rule: pgm_write_loop.induct)
  case (1 fa sa block idx n sz s)
  show ?case
  proof (cases "idx < 32")
    case False
    then show ?thesis by (auto simp add: pgm_write_loop_done)
  next
    case True
    note ix = fill_index [OF "1.prems"(1,2) True]
    have T: "idx < SPM_PAGESIZE div 2" using True by (simp add: SPM_PAGESIZE_def)
    show ?thesis
    proof (cases "fa \<le> sa + 2 * of_nat idx \<and> 0 < sz")
      case c: True
      then have c1: "fa \<le> sa + 2 * of_nat idx" and c2: "0 < sz" by simp_all
      note ev = size_step [OF c2]
      have ge: "unat fa \<le> unat sa + 2 * idx"
        using c1 ix(2) by (simp add: word_le_nat_alt)
      have ih: "pagebuf (pgm_write_loop fa sa block idx n sz s) j =
        (if idx + 1 \<le> j \<and> j < 32 then
          (if unat fa \<le> unat sa + 2 * j
              \<and> (odd (unat (sz - 2))
                 \<or> 2 * (j - max (idx + 1) ((unat fa - unat sa + 1) div 2)) < unat (sz - 2))
           then block (n + 1 + (j - max (idx + 1) ((unat fa - unat sa + 1) div 2)))
           else flash s (unat sa div 2 + j))
         else ((pagebuf s)(idx := block n)) j)"
        using "1.IH"(1) [OF T refl c "1.prems"(1,2)]
        by (simp add: pgm_write_loop_taken [OF True c1 c2] boot_program_page_fill_eq ix cong: if_cong)
      show ?thesis
      proof (cases "j = idx")
        case True
        then show ?thesis using ih ge ev(3) \<open>idx < 32\<close> by simp
      next
        case False
        have m: "max idx ((unat fa - unat sa + 1) div 2) = idx"
                "max (idx + 1) ((unat fa - unat sa + 1) div 2) = idx + 1"
          using ge by arith+
        show ?thesis
        proof (cases "idx + 1 \<le> j \<and> j < 32")
          case True
          have i1: "n + 1 + (j - (idx + 1)) = n + (j - idx)" using True by arith
          have i2: "(odd (unat (sz - 2)) \<or> 2 * (j - (idx + 1)) < unat (sz - 2))
                 = (odd (unat sz) \<or> 2 * (j - idx) < unat sz)"
          proof (cases "odd (unat sz)")
            case True
            then show ?thesis using ev(1) by simp
          next
            case False
            then have e: "unat (sz - 2) = unat sz - 2" "2 \<le> unat sz" using ev(2) by simp_all
            have "(2 * (j - (idx + 1)) < unat sz - 2) = (2 * (j - idx) < unat sz)"
              using True e(2) by arith
            then show ?thesis using False e(1) by simp
          qed
          show ?thesis using ih True unfolding m i1 i2 by simp
        next
          case False
          then show ?thesis using ih \<open>j \<noteq> idx\<close> by auto
        qed
      qed
    next
      case c: False
      have ih: "pagebuf (pgm_write_loop fa sa block idx n sz s) j =
        (if idx + 1 \<le> j \<and> j < 32 then
          (if unat fa \<le> unat sa + 2 * j
              \<and> (odd (unat sz) \<or> 2 * (j - max (idx + 1) ((unat fa - unat sa + 1) div 2)) < unat sz)
           then block (n + (j - max (idx + 1) ((unat fa - unat sa + 1) div 2)))
           else flash s (unat sa div 2 + j))
         else ((pagebuf s)(idx := pgm_read_word s (sa + 2 * of_nat idx))) j)"
        using "1.IH"(2) [OF T refl c "1.prems"]
        by (simp add: pgm_write_loop_kept [OF True c] boot_program_page_fill_eq ix cong: if_cong)
      have rd: "pgm_read_word s (sa + 2 * of_nat idx) = flash s (unat sa div 2 + idx)"
      proof -
        have "even (unat sa)" using "1.prems"(1) by presburger
        then have "even (unat (sa + 2 * of_nat idx))" using ix(2) by simp
        then show ?thesis using ix(2) \<open>even (unat sa)\<close> by (simp add: pgm_read_word_even) 
      qed
      from c have d: "unat fa > unat sa + 2 * idx \<or> unat sz = 0"
        using ix(2) by (auto simp add: word_le_nat_alt word_less_nat_alt)
      show ?thesis
      proof (cases "j = idx")
        case True
        then show ?thesis using ih d rd \<open>idx < 32\<close> by auto
      next
        case False
        show ?thesis
        proof (cases "idx + 1 \<le> j \<and> j < 32")
          case True
          from d show ?thesis
          proof
            assume "unat fa > unat sa + 2 * idx"
            then have mm: "max (idx + 1) ((unat fa - unat sa + 1) div 2) = max idx ((unat fa - unat sa + 1) div 2)"
              by arith
            show ?thesis using ih True unfolding mm by auto
          next
            assume "unat sz = 0"
            then show ?thesis using ih True by simp
          qed
        next
          case False
          then show ?thesis using ih \<open>j \<noteq> idx\<close> by auto
        qed
      qed
    qed
  qed
qed

lemma page_word_index:
  "i < 32 \<Longrightarrow> (2 * (32 * q + i)) div 64 = (q :: nat)"
  "i < 32 \<Longrightarrow> (32 * q + i) mod 32 = (i :: nat)"
  "i < 32 \<Longrightarrow> (32 * q + i) div 32 = (q :: nat)"
  by simp_all

lemma block_index:
  "r \<le> 2 * i \<Longrightarrow> i - (r + 1) div 2 = (2 * i - r) div (2 :: nat)"
  by arith

lemma pgm_write_block_flash:
  shows "i < 32 \<Longrightarrow> flash (pgm_write_block flash_addr block sz s) (32 * (unat flash_addr div 64) + i) =
    (if unat flash_addr mod 64 \<le> 2 * i
        \<and> (odd (unat sz) \<or> 2 * ((2 * i - unat flash_addr mod 64) div 2) < unat sz)
     then block ((2 * i - unat flash_addr mod 64) div 2)
     else flash s (32 * (unat flash_addr div 64) + i))"
  and "j div 32 \<noteq> unat flash_addr div 64 \<Longrightarrow> flash (pgm_write_block flash_addr block sz s) j = flash s j"
proof -
  define sa where "sa = (flash_addr div 64) * 64"
  define q where "q = unat flash_addr div 64"
  define r where "r = unat flash_addr mod 64"
  have sa: "unat sa = q * 64"
    by (simp add: sa_def unat_start_addr q_def)
  have fa: "unat flash_addr = unat sa + r"
    by (simp add: sa q_def r_def)
  have al: "unat sa mod 64 = 0" "unat sa + 64 \<le> 65536"
    using sa unat_u16_lt [of flash_addr] by (simp_all add: q_def)
  define s1 where "s1 = pgm_write_loop flash_addr sa block 0 0 sz s"
  obtain pb where fr: "s1 = s\<lparr>pagebuf := pb\<rparr>"
    unfolding s1_def using pgm_write_loop_frame by blast
  have res: "flash (pgm_write_block flash_addr block sz s) j =
      (if (2 * j) div 64 = q then pagebuf s1 (j mod 32) else flash s j)" for j
    using fr sa
    by (simp add: pgm_write_block_def Let_def boot_program_page_erase_write_def
        boot_page_erase_def boot_page_write_def SPM_PAGESIZE_def sa_def [symmetric]
        s1_def [symmetric] unat_ucast_32)
  have "2 * j div 64 = j div 32" by simp
  then show "j div 32 \<noteq> unat flash_addr div 64 \<Longrightarrow> flash (pgm_write_block flash_addr block sz s) j = flash s j"
    using res [of j] by (simp add: q_def)
  assume i: "i < 32"
  have pb: "pagebuf s1 i =
        (if r \<le> 2 * i \<and> (odd (unat sz) \<or> 2 * (i - (r + 1) div 2) < unat sz)
         then block (i - (r + 1) div 2)
         else flash s (32 * q + i))"
    unfolding s1_def
    using pgm_write_loop_pagebuf [OF al, of flash_addr block 0 0 sz s i] i
    by (simp add: fa sa cong: if_cong)
  have "flash (pgm_write_block flash_addr block sz s) (32 * q + i) = pagebuf s1 i"
    using res [of "32 * q + i"] i by (simp add: page_word_index)
  then show "flash (pgm_write_block flash_addr block sz s) (32 * (unat flash_addr div 64) + i) =
    (if unat flash_addr mod 64 \<le> 2 * i
        \<and> (odd (unat sz) \<or> 2 * ((2 * i - unat flash_addr mod 64) div 2) < unat sz)
     then block ((2 * i - unat flash_addr mod 64) div 2)
     else flash s (32 * (unat flash_addr div 64) + i))"
    using pb block_index [of r i] by (auto simp add: q_def [symmetric] r_def [symmetric])
qed

lemma erase_write_eq:
  "boot_program_page_erase_write pageaddr s =
     s\<lparr>flash := (\<lambda>j. if j div 32 = unat pageaddr div 64 then pagebuf s (j mod 32) else flash s j)\<rparr>"
  by (simp add: boot_program_page_erase_write_def boot_page_erase_def boot_page_write_def
      Let_def SPM_PAGESIZE_def unat_ucast_32 cong: if_cong)

lemma pgm_write_block_frame:
  "\<exists>fl pb. pgm_write_block flash_addr block sz s = s\<lparr>flash := fl, pagebuf := pb\<rparr>"
proof -
  obtain pb where E: "pgm_write_loop flash_addr
      ((flash_addr div of_nat SPM_PAGESIZE) * of_nat SPM_PAGESIZE) block 0 0 sz s = s\<lparr>pagebuf := pb\<rparr>"
    using pgm_write_loop_frame by blast
  have "pgm_write_block flash_addr block sz s =
      boot_program_page_erase_write ((flash_addr div of_nat SPM_PAGESIZE) * of_nat SPM_PAGESIZE)
        (s\<lparr>pagebuf := pb\<rparr>)"
    unfolding pgm_write_block_def Let_def E ..
  then have "pgm_write_block flash_addr block sz s =
      s\<lparr>flash := flash (pgm_write_block flash_addr block sz s), pagebuf := pb\<rparr>"
    by (intro state.equality) (simp_all add: erase_write_eq)
  then show ?thesis by blast
qed

lemma pgm_write_block_bytes:
  assumes "even (unat sz)" "even (unat flash_addr)"
    and out: "a < unat flash_addr \<or> unat flash_addr + unat sz \<le> a"
  shows "pgm_read_byte (pgm_write_block flash_addr block sz s) a = pgm_read_byte s a"
proof -
  define q where "q = unat flash_addr div 64"
  define r where "r = unat flash_addr mod 64"
  define j where "j = a div 2"
  define i where "i = j mod 32"
  have "flash (pgm_write_block flash_addr block sz s) j = flash s j"
  proof (cases "j div 32 = q")
    case False
    then show ?thesis using pgm_write_block_flash(2) by (simp add: q_def)
  next
    case True
    have i: "i < 32" by (simp add: i_def)
    have j: "j = 32 * q + i" using True div_mult_mod_eq [of j 32] by (simp add: i_def)
    have fa: "unat flash_addr = 64 * q + r" by (simp add: q_def r_def)
    have er: "even r" using assms(2) fa by presburger
    have a: "a = 2 * j \<or> a = 2 * j + 1" unfolding j_def by presburger
    have "\<not> (r \<le> 2 * i \<and> 2 * ((2 * i - r) div 2) < unat sz)"
    proof
      assume h: "r \<le> 2 * i \<and> 2 * ((2 * i - r) div 2) < unat sz"
      then have "2 * ((2 * i - r) div 2) = 2 * i - r" using er by auto
      with h have "r \<le> 2 * i" "2 * i - r < unat sz" by simp_all
      then have "unat flash_addr \<le> 2 * j" "2 * j + 1 < unat flash_addr + unat sz"
        using j fa er assms(1) by presburger+
      with out a show False by arith
    qed
    then show ?thesis
      using pgm_write_block_flash(1) [OF i, of flash_addr block sz s] assms(1)
      by (auto simp add: q_def [symmetric] r_def [symmetric] j)
  qed
  then show ?thesis by (simp add: pgm_read_byte_def j_def)
qed

text \<open>
  Claim C5, for blocks of whole words. For every call \<open>pgm_write_block flash_addr block
  size\<close> with an even \<open>size\<close>: the word at offset \<open>i\<close> of the page that contains
  \<open>flash_addr\<close> (its byte address is the page start plus \<open>2 * i\<close>) is the next word of
  \<open>block\<close> when that address is at or after \<open>flash_addr\<close> and fewer than \<open>size\<close> bytes of
  the block have been read, and otherwise the word the flash held there before; every
  other page is unchanged; and when \<open>flash_addr\<close> is even as well, every byte of program
  memory outside \<open>flash_addr \<dots> flash_addr + size - 1\<close> reads as before.
\<close>

theorem pgm_write_block_merge:
  assumes "even (unat sz)"
  shows "(i < 32 \<longrightarrow>
            flash (pgm_write_block flash_addr block sz s) (32 * (unat flash_addr div 64) + i) =
              (if unat flash_addr mod 64 \<le> 2 * i
                  \<and> 2 * ((2 * i - unat flash_addr mod 64) div 2) < unat sz
               then block ((2 * i - unat flash_addr mod 64) div 2)
               else flash s (32 * (unat flash_addr div 64) + i)))
       \<and> (j div 32 \<noteq> unat flash_addr div 64 \<longrightarrow>
            flash (pgm_write_block flash_addr block sz s) j = flash s j)
       \<and> (even (unat flash_addr) \<and> (a < unat flash_addr \<or> unat flash_addr + unat sz \<le> a) \<longrightarrow>
            pgm_read_byte (pgm_write_block flash_addr block sz s) a = pgm_read_byte s a)"
  using assms pgm_write_block_flash(1) [of i flash_addr block sz s]
    pgm_write_block_flash(2) [of j flash_addr block sz s]
    pgm_write_block_bytes [of sz flash_addr a block s]
  by simp

text \<open>
  The call \<open>runProgramm\<close> makes, with a block that counts its words: the last word of the
  page takes the first word of the block, the word before it and the bytes before the slot
  keep their contents.
\<close>

theorem pgm_write_block_merge_witness:
  "even (unat (2 :: u16))
   \<and> flash (pgm_write_block 0x1BBE count_block 2 blank_state) 3551 = count_block 0
   \<and> flash (pgm_write_block 0x1BBE count_block 2 blank_state) 3550 = flash blank_state 3550
   \<and> flash (pgm_write_block 0x1BBE count_block 2 blank_state) 7 = flash blank_state 7
   \<and> pgm_read_byte (pgm_write_block 0x1BBE count_block 2 blank_state) 7101 = pgm_read_byte blank_state 7101"
  using pgm_write_block_merge [of 2 31 "0x1BBE" count_block blank_state 7 7101]
    pgm_write_block_merge [of 2 30 "0x1BBE" count_block blank_state 7 7101]
  by simp

text \<open>
  Claim C5 as it is written, for every call, fails. With \<open>size = 1\<close> at address 0 one
  byte is unread before the first word and none after it, so the word at offset 1 should
  keep its contents; the count wraps from 1 to 65535 and the loop stores \<open>block[1]\<close> there.
  With the odd address 1 and \<open>size = 2\<close> the bytes written are 2 and 3, and byte 3 lies
  outside the range of two bytes from address 1.
\<close>

theorem pgm_write_block_merge_counterexample:
  "flash (pgm_write_block 0 count_block 1 blank_state) 1 = count_block 1
   \<and> flash blank_state 1 \<noteq> count_block 1
   \<and> pgm_read_byte (pgm_write_block 1 count_block 2 blank_state) 3
       \<noteq> pgm_read_byte blank_state 3"
  using pgm_write_block_flash(1) [of 1 0 count_block 1 blank_state]
    pgm_write_block_flash(1) [of 1 1 count_block 2 blank_state]
  by (simp add: count_block_def pgm_read_byte_def blank_state_def)

section \<open>Programming a page\<close>

lemma resetVector_written: "resetVector = 0xC000 + of_nat (BOOTLOADER_ADDRESS div 2) - 1"
  by (simp add: resetVector_def RJMP_def)

lemma page_fill_index:
  assumes "unat page mod 64 = 0" "unat page + 64 \<le> 4294967296" "i < 64"
  shows "unat (page + of_nat i :: u32) mod 64 div 2 = i div 2"
proof -
  have "unat (page + of_nat i :: u32) = unat page + i"
    using assms by (simp add: unat_page_add)
  moreover have "(unat page + i) mod 64 = i"
    using assms by (metis add_0 mod_add_left_eq mod_less)
  ultimately show ?thesis by simp
qed

lemma boot_program_loop_first:
  "boot_program_loop 0 buf 0 s =
     boot_program_loop 0 buf 2
       (s\<lparr>start_appl_main := le_word buf 0 - RJMP,
          pagebuf := (pagebuf s)(0 := resetVector)\<rparr>)"
  by (subst boot_program_loop.simps)
     (simp add: boot_page_fill_def Let_def SPM_PAGESIZE_def resetVector_written le_word_def
        del: add_2_eq_Suc add_2_eq_Suc')

lemma boot_program_loop_other:
  assumes "i < 64" "\<not> (page = 0 \<and> i = 0)" "unat page mod 64 = 0"
    "unat page + 64 \<le> 4294967296" "even i"
  shows "boot_program_loop page buf i s =
     boot_program_loop page buf (i + 2)
       (s\<lparr>pagebuf := (pagebuf s)(i div 2 := le_word buf (i div 2))\<rparr>)"
proof -
  have "2 * (i div 2) = i" using assms(5) by simp
  then have "le_word buf (i div 2) = ucast (buf i) + push_bit 8 (ucast (buf (i + 1)))"
    by (simp add: le_word_def)
  then show ?thesis
    using assms(1,2) page_fill_index [OF assms(3,4,1)]
    by (subst boot_program_loop.simps)
       (auto simp add: boot_page_fill_def Let_def SPM_PAGESIZE_def)
qed

lemma boot_program_loop_done:
  "\<not> i < 64 \<Longrightarrow> boot_program_loop page buf i s = s"
  by (subst boot_program_loop.simps) (simp add: SPM_PAGESIZE_def)

lemma boot_program_loop_rest:
  assumes "unat page mod 64 = 0" "unat page + 64 \<le> 4294967296"
  shows "even i \<Longrightarrow> 0 < i \<Longrightarrow> boot_program_loop page buf i s =
     s\<lparr>pagebuf := (\<lambda>k. if i \<le> 2 * k \<and> k < 32 then le_word buf k else pagebuf s k)\<rparr>"
proof (induction "32 - i div 2" arbitrary: i s)
  case 0
  then have "\<not> i < 64" by arith
  then have "(\<lambda>k. if i \<le> 2 * k \<and> k < 32 then le_word buf k else pagebuf s k) = pagebuf s"
    by (intro ext) auto
  then show ?case using \<open>\<not> i < 64\<close> by (simp add: boot_program_loop_done)
next
  case (Suc n)
  then have lt: "i < 64" by arith
  have n: "n = 32 - (i + 2) div 2" using Suc(2) by arith
  have "boot_program_loop page buf i s =
     boot_program_loop page buf (i + 2)
       (s\<lparr>pagebuf := (pagebuf s)(i div 2 := le_word buf (i div 2))\<rparr>)"
    using boot_program_loop_other [OF lt _ assms \<open>even i\<close>] \<open>0 < i\<close> by simp
  also have "\<dots> = s\<lparr>pagebuf := (\<lambda>k. if i + 2 \<le> 2 * k \<and> k < 32 then le_word buf k
        else ((pagebuf s)(i div 2 := le_word buf (i div 2))) k)\<rparr>"
    using Suc(1) [OF n] \<open>even i\<close> by (simp cong: if_cong)
  also have "(\<lambda>k. if i + 2 \<le> 2 * k \<and> k < 32 then le_word buf k
        else ((pagebuf s)(i div 2 := le_word buf (i div 2))) k)
      = (\<lambda>k. if i \<le> 2 * k \<and> k < 32 then le_word buf k else pagebuf s k)"
  proof (rule ext)
    fix k
    have "i = 2 * (i div 2)" using \<open>even i\<close> by simp
    then have "(i \<le> 2 * k) = (i + 2 \<le> 2 * k \<or> k = i div 2)" "i div 2 < 32"
      using lt by arith+
    then show "(if i + 2 \<le> 2 * k \<and> k < 32 then le_word buf k
        else ((pagebuf s)(i div 2 := le_word buf (i div 2))) k)
      = (if i \<le> 2 * k \<and> k < 32 then le_word buf k else pagebuf s k)"
      by auto
  qed
  finally show ?case .
qed

lemma boot_program_loop_eq:
  assumes "unat page mod 64 = 0" "unat page + 64 \<le> 4294967296"
  shows "boot_program_loop page buf 0 s =
     (if page = 0
      then s\<lparr>start_appl_main := le_word buf 0 - RJMP,
             pagebuf := (\<lambda>k. if k < 32 then (if k = 0 then resetVector else le_word buf k)
                              else pagebuf s k)\<rparr>
      else s\<lparr>pagebuf := (\<lambda>k. if k < 32 then le_word buf k else pagebuf s k)\<rparr>)"
proof (cases "page = 0")
  case True
  have "boot_program_loop 0 buf 2
       (s\<lparr>start_appl_main := le_word buf 0 - RJMP, pagebuf := (pagebuf s)(0 := resetVector)\<rparr>)
     = s\<lparr>start_appl_main := le_word buf 0 - RJMP,
             pagebuf := (\<lambda>k. if 2 \<le> 2 * k \<and> k < 32 then le_word buf k
                else ((pagebuf s)(0 := resetVector)) k)\<rparr>"
    by (subst boot_program_loop_rest) (simp_all cong: if_cong)
  moreover have "(\<lambda>k. if 2 \<le> 2 * k \<and> k < 32 then le_word buf k
                else ((pagebuf s)(0 := resetVector)) k)
     = (\<lambda>k. if k < 32 then (if k = 0 then resetVector else le_word buf k) else pagebuf s k)"
    by (rule ext) auto
  ultimately show ?thesis using True by (simp add: boot_program_loop_first)
next
  case False
  have "boot_program_loop page buf 0 s =
     boot_program_loop page buf 2 (s\<lparr>pagebuf := (pagebuf s)(0 := le_word buf 0)\<rparr>)"
    using boot_program_loop_other [OF _ _ assms, of 0 buf s] False
    by (simp del: add_2_eq_Suc add_2_eq_Suc')
  also have "\<dots> = s\<lparr>pagebuf := (\<lambda>k. if 2 \<le> 2 * k \<and> k < 32 then le_word buf k
        else ((pagebuf s)(0 := le_word buf 0)) k)\<rparr>"
    by (subst boot_program_loop_rest [OF assms]) (simp_all cong: if_cong)
  also have "(\<lambda>k. if 2 \<le> 2 * k \<and> k < 32 then le_word buf k
        else ((pagebuf s)(0 := le_word buf 0)) k)
     = (\<lambda>k. if k < 32 then le_word buf k else pagebuf s k)"
    by (rule ext) (auto simp add: not_less_eq_eq)
  finally show ?thesis using False by simp
qed

lemma resetVector_jump: "resetVector = jump_to (of_nat (BOOTLOADER_ADDRESS div 2))"
  by (simp add: resetVector_written jump_to_def RJMP_def)

lemma boot_program_page_eq:
  assumes "unat page mod 64 = 0" "unat page + 64 \<le> 4294967296"
  shows "boot_program_page page buf s =
     s\<lparr>SREG_I := False,
       start_appl_main := (if page = 0 then le_word buf 0 - RJMP else start_appl_main s),
       pagebuf := (\<lambda>k. if k < 32 then (if page = 0 \<and> k = 0 then resetVector else le_word buf k)
                        else pagebuf s k),
       flash := (\<lambda>j. if j div 32 = unat page div 64
                      then (if page = 0 \<and> j mod 32 = 0 then resetVector else le_word buf (j mod 32))
                      else flash s j)\<rparr>"
  unfolding boot_program_page_def Let_def boot_program_loop_eq [OF assms]
  by (simp add: boot_page_erase_def boot_page_write_def SPM_PAGESIZE_def div_eq_0_iff cong: if_cong)

text \<open>
  Claim C4. When \<open>boot_program_page\<close> is called for page 0, the first payload word is
  read as a jump: its target, the word minus \<open>RJMP\<close>, is saved in \<open>start_appl_main\<close> (so
  a first word that jumps to \<open>X\<close> leaves \<open>X\<close> there), and the word written at address 0
  is the jump to the bootloader's entry, \<open>BOOTLOADER_ADDRESS / 2\<close>. Every other word of
  the page is written as the payload gives it, and the other pages are unchanged.
\<close>

theorem boot_program_page_zero:
  "start_appl_main (boot_program_page 0 buf s) = le_word buf 0 - RJMP
   \<and> (le_word buf 0 = jump_to X \<longrightarrow> start_appl_main (boot_program_page 0 buf s) = X)
   \<and> flash (boot_program_page 0 buf s) 0 = jump_to (of_nat (BOOTLOADER_ADDRESS div 2))
   \<and> (\<forall>k. 0 < k \<and> k < 32 \<longrightarrow> flash (boot_program_page 0 buf s) k = le_word buf k)
   \<and> (\<forall>j. 32 \<le> j \<longrightarrow> flash (boot_program_page 0 buf s) j = flash s j)"
  by (simp add: boot_program_page_eq resetVector_jump jump_to_def div_eq_0_iff)

text \<open>A payload whose first word, \<open>0xC00F\<close>, jumps to word address \<open>0x10\<close>.\<close>

theorem boot_program_page_zero_witness:
  "le_word vector_payload 0 = jump_to 0x10
   \<and> start_appl_main (boot_program_page 0 vector_payload blank_state) = 0x10
   \<and> flash (boot_program_page 0 vector_payload blank_state) 0
       = jump_to (of_nat (BOOTLOADER_ADDRESS div 2))
   \<and> flash (boot_program_page 0 vector_payload blank_state) 1 = 0x55
   \<and> flash (boot_program_page 0 vector_payload blank_state) 32 = 0xFFFF"
proof -
  have a: "le_word vector_payload 0 = jump_to 0x10"
    by (simp add: le_word_def vector_payload_def jump_to_def RJMP_def)
  have b: "le_word vector_payload 1 = 0x55"
    by (simp add: le_word_def vector_payload_def)
  show ?thesis
    using a b boot_program_page_zero [of vector_payload blank_state "0x10"]
    by (simp add: blank_state_def jump_to_def)
qed

section \<open>The program command\<close>

lemma unat_prog_address:
  "unat (prog_address s) =
     (SPM_PAGESIZE * (256 * unat (FrameData s PAGEINDEXHIGH) + unat (FrameData s PAGEINDEXLOW))) mod 65536"
proof -
  define h where "h = FrameData s PAGEINDEXHIGH"
  define l where "l = FrameData s PAGEINDEXLOW"
  have a: "unat (push_bit 8 (ucast h :: u16)) = 256 * unat h"
    using unat_u8_lt [of h]
    by (simp add: push_bit_eq_mult unat_word_ariths unat_ucast_8_16 take_bit_eq_mod)
  have b: "unat (push_bit 8 (ucast h) + ucast l :: u16) = 256 * unat h + unat l"
    using unat_u8_lt [of h] unat_u8_lt [of l]
    by (simp add: unat_word_ariths(1) a unat_ucast_8_16 take_bit_eq_mod)
  have c: "unat (64 * pn) = (64 * unat pn) mod 65536" for pn :: u16
    by (simp add: unat_word_ariths(2) take_bit_eq_mod)
  have "prog_address s = 64 * (push_bit 8 (ucast h) + ucast l)"
    by (simp only: prog_address_def Let_def h_def l_def SPM_PAGESIZE_def of_nat_numeral)
  then have "unat (prog_address s) = unat (64 * (push_bit 8 (ucast h) + ucast l) :: u16)"
    by (rule arg_cong)
  also have "\<dots> = (64 * unat (push_bit 8 (ucast h) + ucast l :: u16)) mod 65536"
    by (rule c)
  also have "\<dots> = (64 * (256 * unat h + unat l)) mod 65536"
    by (simp only: b)
  finally show ?thesis
    by (simp only: h_def l_def SPM_PAGESIZE_def)
qed

lemma prog_page_aligned:
  "unat (ucast (prog_address s) :: u32) mod 64 = 0"
  "unat (ucast (prog_address s) :: u32) + 64 \<le> 4294967296"
  "unat (ucast (prog_address s) :: u32) = unat (prog_address s)"
  "(ucast (prog_address s) :: u32) = 0 \<longleftrightarrow> prog_address s = 0"
proof -
  show u: "unat (ucast (prog_address s) :: u32) = unat (prog_address s)"
    by (rule unat_ucast_32)
  show "unat (ucast (prog_address s) :: u32) mod 64 = 0"
    unfolding u unat_prog_address by (simp add: SPM_PAGESIZE_def mod_mod_cancel)
  show "unat (ucast (prog_address s) :: u32) + 64 \<le> 4294967296"
    unfolding u using unat_u16_lt [of "prog_address s"] by simp
  show "(ucast (prog_address s) :: u32) = 0 \<longleftrightarrow> prog_address s = 0"
    using u by (metis unat_eq_0)
qed

lemma prog_command_flash:
  assumes "FrameData s COMMAND = PROGCOMMAND" "unat (prog_address s) < BOOTLOADER_ADDRESS"
    and "k < 32"
  shows "flash (outcome_state (dispatch s)) (unat (prog_address s) div 2 + k) =
           (if prog_address s = 0 \<and> k = 0 then resetVector else le_word (payload s) k)"
proof -
  have lt: "prog_address s < of_nat BOOTLOADER_ADDRESS"
    using assms(2) by (simp add: word_less_nat_alt unat_bootloader_address)
  obtain q where q: "unat (prog_address s) = 64 * q"
    using prog_page_aligned(1) [of s] unfolding prog_page_aligned(3) by (auto elim: dvdE simp: mod_eq_0_iff_dvd)
  have d: "dispatch s = Continue (clear_command (TOGGLELED
      (boot_program_page (ucast (prog_address s)) (payload s) s)))"
    using assms(1) lt by (simp add: dispatch_def Let_def)
  have z: "(q = 0) = (prog_address s = 0)"
    using q by (metis mult_eq_0_iff unat_eq_0 zero_neq_numeral)
  show ?thesis
    unfolding d
    using assms(3) z
    by (simp add: outcome_state_def clear_command_def TOGGLELED_def
        boot_program_page_eq [OF prog_page_aligned(1,2)] prog_page_aligned(3,4) q)
qed

lemma prog_command_appl:
  assumes "FrameData s COMMAND = PROGCOMMAND" "prog_address s = 0"
  shows "start_appl_main (outcome_state (dispatch s)) = le_word (payload s) 0 - RJMP"
proof -
  have lt: "prog_address s < of_nat BOOTLOADER_ADDRESS"
    using assms(2) by (simp add: BOOTLOADER_ADDRESS_def)
  have d: "dispatch s = Continue (clear_command (TOGGLELED
      (boot_program_page 0 (payload s) s)))"
    using assms lt by (simp add: dispatch_def Let_def)
  show ?thesis
    unfolding d
    by (simp add: outcome_state_def clear_command_def TOGGLELED_def boot_program_page_eq)
qed

text \<open>
  Claim C2. For every frame with the command \<open>PROGCOMMAND\<close> whose computed byte address
  (\<open>prog_address\<close>, the page number times \<open>SPM_PAGESIZE\<close> in 16 bits) is at or above the
  bootloader's start address, dispatch only clears the command byte: program memory, the
  page buffer, \<open>start_appl_main\<close> and the saved entry in flash are unchanged.
\<close>

theorem prog_command_protected:
  assumes "FrameData s COMMAND = PROGCOMMAND"
    and "BOOTLOADER_ADDRESS \<le> unat (prog_address s)"
  shows "dispatch s = Continue (clear_command s)
       \<and> flash (outcome_state (dispatch s)) = flash s
       \<and> pagebuf (outcome_state (dispatch s)) = pagebuf s
       \<and> start_appl_main (outcome_state (dispatch s)) = start_appl_main s
       \<and> pgm_read_word (outcome_state (dispatch s)) BOOTLOADER_FUNC_ADDRESS
           = pgm_read_word s BOOTLOADER_FUNC_ADDRESS"
proof -
  have "\<not> prog_address s < of_nat BOOTLOADER_ADDRESS"
    using assms(2) by (simp add: word_less_nat_alt unat_bootloader_address)
  then have "dispatch s = Continue (clear_command s)"
    using assms(1) by (simp add: dispatch_def Let_def)
  then show ?thesis
    by (simp add: outcome_state_def clear_command_def pgm_read_word_def pgm_read_byte_def)
qed

text \<open>The frame \<open>protected_frame\<close> names page 111, whose address is the bootloader's start.\<close>

theorem prog_command_protected_witness:
  "FrameData (blank_state\<lparr>FrameData := protected_frame\<rparr>) COMMAND = PROGCOMMAND
   \<and> unat (prog_address (blank_state\<lparr>FrameData := protected_frame\<rparr>)) = BOOTLOADER_ADDRESS
   \<and> flash (outcome_state (dispatch (blank_state\<lparr>FrameData := protected_frame\<rparr>)))
        = flash blank_state
   \<and> start_appl_main (outcome_state (dispatch (blank_state\<lparr>FrameData := protected_frame\<rparr>)))
        = start_appl_main blank_state"
proof -
  have a: "FrameData (blank_state\<lparr>FrameData := protected_frame\<rparr>) COMMAND = PROGCOMMAND"
    by (simp add: protected_frame_def COMMAND_def PROGCOMMAND_def)
  have b: "unat (prog_address (blank_state\<lparr>FrameData := protected_frame\<rparr>)) = BOOTLOADER_ADDRESS"
    by (simp add: unat_prog_address protected_frame_def PAGEINDEXHIGH_def PAGEINDEXLOW_def
        SPM_PAGESIZE_def BOOTLOADER_ADDRESS_def)
  then have c: "BOOTLOADER_ADDRESS \<le> unat (prog_address (blank_state\<lparr>FrameData := protected_frame\<rparr>))"
    by simp
  note T = prog_command_protected [OF a c]
  have f: "flash (outcome_state (dispatch (blank_state\<lparr>FrameData := protected_frame\<rparr>)))
        = flash (blank_state\<lparr>FrameData := protected_frame\<rparr>)"
    and g: "start_appl_main (outcome_state (dispatch (blank_state\<lparr>FrameData := protected_frame\<rparr>)))
        = start_appl_main (blank_state\<lparr>FrameData := protected_frame\<rparr>)"
    using T by blast+
  show ?thesis
    using a b f g by simp
qed

text \<open>
  Claim C3. The address of a program command is \<open>(SPM_PAGESIZE * page number) mod
  2^16\<close>. When the product itself is at or above the bootloader's start address and the
  wrapped value is below it, the check passes and the payload is written to the page at
  the wrapped address (at address 0 with the first word replaced as for page 0).
\<close>

theorem prog_address_wraps:
  assumes "FrameData s COMMAND = PROGCOMMAND"
    and "BOOTLOADER_ADDRESS \<le> SPM_PAGESIZE * page_number s"
    and "(SPM_PAGESIZE * page_number s) mod 65536 < BOOTLOADER_ADDRESS"
  shows "unat (prog_address s) = (SPM_PAGESIZE * page_number s) mod 65536
       \<and> prog_address s < of_nat BOOTLOADER_ADDRESS
       \<and> (k < 32 \<longrightarrow>
            flash (outcome_state (dispatch s)) ((SPM_PAGESIZE * page_number s) mod 65536 div 2 + k) =
              (if prog_address s = 0 \<and> k = 0 then resetVector else le_word (payload s) k))"
proof -
  have a: "unat (prog_address s) = (SPM_PAGESIZE * page_number s) mod 65536"
    by (simp add: unat_prog_address page_number_def)
  then have b: "unat (prog_address s) < BOOTLOADER_ADDRESS" using assms(3) by simp
  then have "prog_address s < of_nat BOOTLOADER_ADDRESS"
    by (simp add: word_less_nat_alt unat_bootloader_address)
  then show ?thesis
    using a prog_command_flash [OF assms(1) b, of k] by simp
qed

text \<open>
  Page number 1025: the product is 65600, the address 64, and the first payload word
  lands in the second page of the flash.
\<close>

theorem prog_address_wraps_witness:
  "FrameData (blank_state\<lparr>FrameData := wrap_frame\<rparr>) COMMAND = PROGCOMMAND
   \<and> page_number (blank_state\<lparr>FrameData := wrap_frame\<rparr>) = 1025
   \<and> BOOTLOADER_ADDRESS \<le> SPM_PAGESIZE * page_number (blank_state\<lparr>FrameData := wrap_frame\<rparr>)
   \<and> unat (prog_address (blank_state\<lparr>FrameData := wrap_frame\<rparr>)) = 64
   \<and> flash (outcome_state (dispatch (blank_state\<lparr>FrameData := wrap_frame\<rparr>))) 32 = 0x1234"
proof -
  let ?s = "blank_state\<lparr>FrameData := wrap_frame\<rparr>"
  have a: "FrameData ?s COMMAND = PROGCOMMAND"
    by (simp add: wrap_frame_def COMMAND_def PROGCOMMAND_def)
  have p: "page_number ?s = 1025"
    by (simp add: page_number_def wrap_frame_def PAGEINDEXHIGH_def PAGEINDEXLOW_def)
  have b: "BOOTLOADER_ADDRESS \<le> SPM_PAGESIZE * page_number ?s"
    and c: "(SPM_PAGESIZE * page_number ?s) mod 65536 < BOOTLOADER_ADDRESS"
    unfolding p by (simp_all add: BOOTLOADER_ADDRESS_def SPM_PAGESIZE_def)
  have w: "le_word (payload ?s) 0 = 0x1234"
    by (simp add: le_word_def payload_def wrap_frame_def DATAPAGESTART_def)
  have nz: "prog_address ?s \<noteq> 0"
    using prog_address_wraps [OF a b c, of 0] unfolding p
    by (auto simp add: SPM_PAGESIZE_def)
  show ?thesis
    using a p b w nz prog_address_wraps [OF a b c, of 0] unfolding p
    by (simp add: SPM_PAGESIZE_def)
qed

section \<open>The run command\<close>

lemma runProgramm_eq:
  "jump_target (runProgramm s) = Some (start_appl_main s)"
  "flash (outcome_state (runProgramm s)) j =
     (if j = unat BOOTLOADER_FUNC_ADDRESS div 2 then start_appl_main s else flash s j)"
proof -
  define s1 where "s1 = resetRegister s"
  define s2 where "s2 = pgm_write_block BOOTLOADER_FUNC_ADDRESS (appl_block s1) 2 s1"
  obtain fl pb where fr: "s2 = s1\<lparr>flash := fl, pagebuf := pb\<rparr>"
    unfolding s2_def using pgm_write_block_frame by blast
  have r: "runProgramm s = Jump (start_appl_main s2) s2"
    by (simp add: runProgramm_def Let_def s1_def s2_def)
  have sm: "start_appl_main s2 = start_appl_main s"
    using fr by (simp add: s1_def resetRegister_def)
  show "jump_target (runProgramm s) = Some (start_appl_main s)"
    using r sm by (simp add: jump_target_def)
  have fa: "unat BOOTLOADER_FUNC_ADDRESS = 7102"
    by (simp add: BOOTLOADER_FUNC_ADDRESS_def BOOTLOADER_ADDRESS_def)
  have f1: "flash s1 = flash s" "start_appl_main s1 = start_appl_main s"
    by (simp_all add: s1_def resetRegister_def)
  have "flash s2 j = (if j = 3551 then start_appl_main s else flash s j)"
  proof (cases "j div 32 = 110")
    case False
    then have "j \<noteq> 3551" by arith
    then show ?thesis
      using pgm_write_block_flash(2) [of j BOOTLOADER_FUNC_ADDRESS "appl_block s1" 2 s1] False
      by (simp add: s2_def fa f1)
  next
    case True
    define i where "i = j mod 32"
    have j: "j = 32 * 110 + i" "i < 32" using True div_mult_mod_eq [of j 32] by (simp_all add: i_def)
    have "(62 \<le> 2 * i \<and> 2 * ((2 * i - 62) div 2) < 2) = (i = 31)" using j(2) by arith
    moreover have "(j = 3551) = (i = 31)" using j by arith
    ultimately show ?thesis
      using pgm_write_block_flash(1) [OF j(2), of BOOTLOADER_FUNC_ADDRESS "appl_block s1" 2 s1]
      by (auto simp add: s2_def fa f1 j(1) appl_block_def)
  qed
  then show "flash (outcome_state (runProgramm s)) j =
     (if j = unat BOOTLOADER_FUNC_ADDRESS div 2 then start_appl_main s else flash s j)"
    using r by (simp add: outcome_state_def fa)
qed

lemma programmed_state_props:
  "start_appl_main programmed_state = 0x10"
  "flash programmed_state 0 = resetVector"
proof -
  let ?s = "blank_state\<lparr>FrameData := vector_frame\<rparr>"
  have c: "FrameData ?s COMMAND = PROGCOMMAND"
    by (simp add: vector_frame_def COMMAND_def PROGCOMMAND_def)
  have "unat (prog_address ?s) = 0"
    by (simp add: unat_prog_address vector_frame_def PAGEINDEXHIGH_def PAGEINDEXLOW_def)
  then have z: "prog_address ?s = 0" by (simp add: unat_eq_0)
  have w: "le_word (payload ?s) 0 = 0xC00F"
    by (simp add: le_word_def payload_def vector_frame_def DATAPAGESTART_def)
  show "start_appl_main programmed_state = 0x10"
    unfolding programmed_state_def prog_command_appl [OF c z] w by (simp add: RJMP_def)
  have "unat (prog_address ?s) < BOOTLOADER_ADDRESS"
    using z by (simp add: BOOTLOADER_ADDRESS_def)
  from prog_command_flash [OF c this, of 0] z
  show "flash programmed_state 0 = resetVector"
    by (simp add: programmed_state_def)
qed

lemma run_state_props:
  "FrameData run_state COMMAND = RUNCOMMAND"
  "start_appl_main run_state = 0x10"
  "flash run_state 0 = resetVector"
  by (simp_all add: run_state_def programmed_state_props)

text \<open>
  Claim C1, as the code has it. When a frame with the command \<open>RUNCOMMAND\<close> is
  dispatched, the program stores the saved application entry \<open>X\<close> (\<open>start_appl_main\<close>) in
  the flash slot below the bootloader, at \<open>BOOTLOADER_FUNC_ADDRESS\<close>, through
  \<open>pgm_write_block\<close>, and then transfers control to \<open>X\<close>. No other word of program memory
  changes: the vector at address 0 is what it was before the command.
\<close>

theorem run_command_saves_entry:
  assumes "FrameData s COMMAND = RUNCOMMAND"
  shows "jump_target (dispatch s) = Some (start_appl_main s)
       \<and> flash (outcome_state (dispatch s)) (unat BOOTLOADER_FUNC_ADDRESS div 2) = start_appl_main s
       \<and> (j \<noteq> unat BOOTLOADER_FUNC_ADDRESS div 2 \<longrightarrow>
            flash (outcome_state (dispatch s)) j = flash s j)
       \<and> flash (outcome_state (dispatch s)) 0 = flash s 0"
proof -
  have d: "dispatch s = runProgramm s"
    using assms by (simp add: dispatch_def RUNCOMMAND_def PROGCOMMAND_def)
  have "unat BOOTLOADER_FUNC_ADDRESS div 2 \<noteq> 0"
    by (simp add: BOOTLOADER_FUNC_ADDRESS_def BOOTLOADER_ADDRESS_def)
  then show ?thesis
    unfolding d by (simp add: runProgramm_eq)
qed

text \<open>
  \<open>run_state\<close> is the machine after page 0 was programmed with a jump to \<open>0x10\<close> and a run
  command has arrived.
\<close>

theorem run_command_saves_entry_witness:
  "FrameData run_state COMMAND = RUNCOMMAND
   \<and> jump_target (dispatch run_state) = Some 0x10
   \<and> flash (outcome_state (dispatch run_state)) (unat BOOTLOADER_FUNC_ADDRESS div 2) = 0x10
   \<and> flash (outcome_state (dispatch run_state)) 0 = flash run_state 0
   \<and> flash (outcome_state (dispatch run_state)) 1 = flash run_state 1"
proof -
  note T = run_command_saves_entry [OF run_state_props(1), of 1]
  have n: "1 \<noteq> unat BOOTLOADER_FUNC_ADDRESS div 2"
    by (simp add: BOOTLOADER_FUNC_ADDRESS_def BOOTLOADER_ADDRESS_def)
  have 1: "jump_target (dispatch run_state) = Some (start_appl_main run_state)"
    and 2: "flash (outcome_state (dispatch run_state)) (unat BOOTLOADER_FUNC_ADDRESS div 2)
            = start_appl_main run_state"
    and 3: "flash (outcome_state (dispatch run_state)) 0 = flash run_state 0"
    and 4: "flash (outcome_state (dispatch run_state)) 1 = flash run_state 1"
    using T n by blast+
  show ?thesis
    using run_state_props(1) 1 2 3 4 by (simp only: run_state_props(2) simp_thms)
qed

text \<open>
  Claim C1 as it is written fails: after the run command of \<open>run_state\<close> control is at
  \<open>X = 0x10\<close>, and the vector at address 0 is still the jump to the bootloader that
  \<open>boot_program_page\<close> put there, not a jump to \<open>X\<close>.
\<close>

theorem run_command_restores_vector_counterexample:
  "FrameData run_state COMMAND = RUNCOMMAND
   \<and> start_appl_main run_state = 0x10
   \<and> jump_target (dispatch run_state) = Some 0x10
   \<and> flash (outcome_state (dispatch run_state)) 0 = jump_to (of_nat (BOOTLOADER_ADDRESS div 2))
   \<and> flash (outcome_state (dispatch run_state)) 0 \<noteq> jump_to 0x10"
proof -
  have d: "dispatch run_state = runProgramm run_state"
    using run_state_props(1) by (simp add: dispatch_def RUNCOMMAND_def PROGCOMMAND_def)
  have j: "jump_target (dispatch run_state) = Some 0x10"
    unfolding d by (simp add: runProgramm_eq(1) run_state_props(2))
  have "unat BOOTLOADER_FUNC_ADDRESS div 2 \<noteq> 0"
    by (simp add: BOOTLOADER_FUNC_ADDRESS_def BOOTLOADER_ADDRESS_def)
  then have f: "flash (outcome_state (dispatch run_state)) 0 = resetVector"
    unfolding d runProgramm_eq(2) by (simp add: run_state_props(3))
  have n: "resetVector \<noteq> jump_to 0x10"
    by (simp add: resetVector_def jump_to_def BOOTLOADER_ADDRESS_def)
  show ?thesis
    using run_state_props(1,2) j f n by (simp add: resetVector_jump)
qed

section \<open>Entry\<close>

lemma bootcheck_released:
  "\<not> asserted pinb c \<Longrightarrow> bootcheck_loop pinb c s = (c, s)"
  by (subst bootcheck_loop.simps) (simp add: asserted_def)

lemma bootcheck_held:
  "asserted pinb c \<Longrightarrow> bootcheck_loop pinb c s =
     (if c + 1 > 3000000 then (c + 1, LEDON s) else bootcheck_loop pinb (c + 1) (LEDON s))"
  by (subst bootcheck_loop.simps) (simp add: asserted_def Let_def)

lemma LEDON_idem: "LEDON (LEDON s) = LEDON s"
  by (simp add: LEDON_def)

lemma bootcheck_release:
  assumes "\<not> asserted pinb k" "k \<le> 3000000"
  shows "c \<le> k \<Longrightarrow> (\<forall>j. c \<le> j \<and> j < k \<longrightarrow> asserted pinb j) \<Longrightarrow>
     bootcheck_loop pinb c s = (k, if c < k then LEDON s else s)"
proof (induction "k - c" arbitrary: c s)
  case 0
  then have "c = k" by simp
  then show ?case using assms(1) by (simp add: bootcheck_released)
next
  case (Suc d)
  then have lt: "c < k" and a: "asserted pinb c" by auto
  have n: "d = k - (c + 1)" using Suc(2) by simp
  have "bootcheck_loop pinb c s = bootcheck_loop pinb (c + 1) (LEDON s)"
    using a lt assms(2) by (simp add: bootcheck_held)
  also have "\<dots> = (k, if c + 1 < k then LEDON (LEDON s) else LEDON s)"
    using Suc(1) [OF n, of "LEDON s"] Suc(4) lt by simp
  finally show ?case using lt by (simp add: LEDON_idem)
qed

lemma bootcheck_dwell:
  "c \<le> 3000000 \<Longrightarrow> (\<forall>j. c \<le> j \<and> j \<le> 3000000 \<longrightarrow> asserted pinb j) \<Longrightarrow>
     bootcheck_loop pinb c s = (3000001, LEDON s)"
proof (induction "3000000 - c" arbitrary: c s)
  case 0
  then have "c = 3000000" by simp
  then show ?case using 0 by (simp add: bootcheck_held)
next
  case (Suc d)
  then have lt: "c < 3000000" and a: "asserted pinb c" by auto
  have n: "d = 3000000 - (c + 1)" using Suc(2) by simp
  have "bootcheck_loop pinb c s = bootcheck_loop pinb (c + 1) (LEDON s)"
    using a lt by (simp add: bootcheck_held)
  also have "\<dots> = (3000001, LEDON (LEDON s))"
    using Suc(1) [OF n, of "LEDON s"] Suc(4) lt by simp
  finally show ?case by (simp add: LEDON_idem)
qed

lemma bootcheck_counter:
  assumes "\<forall>j < 3000000. asserted pinb j"
  shows "3000000 \<le> fst (bootcheck_loop pinb 0 s) \<and> snd (bootcheck_loop pinb 0 s) = LEDON s"
proof (cases "asserted pinb 3000000")
  case True
  then have "\<forall>j. 0 \<le> j \<and> j \<le> 3000000 \<longrightarrow> asserted pinb j"
    using assms by (metis le_neq_implies_less)
  then show ?thesis using bootcheck_dwell [of 0 pinb s] by simp
next
  case False
  then show ?thesis
    using bootcheck_release [OF False, of 0 s] assms by simp
qed

text \<open>
  Claim C8, with the null check of \<open>exitBootloader\<close>. When the boot request is released
  at a read \<open>k\<close> below the threshold 3000000 (asserted at every read before), the
  controller calls \<open>exitBootloader\<close> at once: control goes to the application when the
  entry saved in flash is not null, and the controller goes on to the command loop when it
  is null. When the request is asserted at every read below the threshold, the controller
  goes on to the command loop and does not call \<open>exitBootloader\<close>.
\<close>

theorem entry_dwell:
  "(k < 3000000 \<and> (\<forall>j < k. asserted pinb j) \<and> \<not> asserted pinb k \<longrightarrow>
      a_main_entry pinb s = exitBootloader (LEDOFF (if 0 < k then LEDON s else s))
      \<and> (pgm_read_word s BOOTLOADER_FUNC_ADDRESS \<noteq> 0 \<longrightarrow>
           jump_target (a_main_entry pinb s) = Some (pgm_read_word s BOOTLOADER_FUNC_ADDRESS))
      \<and> (pgm_read_word s BOOTLOADER_FUNC_ADDRESS = 0 \<longrightarrow>
           jump_target (a_main_entry pinb s) = None))
   \<and> ((\<forall>j < 3000000. asserted pinb j) \<longrightarrow>
        a_main_entry pinb s = Continue (LEDOFF (LEDON s)))"
proof -
  have rd: "pgm_read_word (LEDOFF (if 0 < k then LEDON s else s)) a = pgm_read_word s a" for a
    by (simp add: pgm_read_word_def pgm_read_byte_def LEDOFF_def LEDON_def)
  have 1: "a_main_entry pinb s = exitBootloader (LEDOFF (if 0 < k then LEDON s else s))"
    if "k < 3000000" "\<forall>j < k. asserted pinb j" "\<not> asserted pinb k"
    using bootcheck_release [OF that(3), of 0 s] that(1,2)
    by (simp add: a_main_entry_def Let_def)
  have 2: "jump_target (exitBootloader (LEDOFF (if 0 < k then LEDON s else s))) =
      (if pgm_read_word s BOOTLOADER_FUNC_ADDRESS \<noteq> 0
       then Some (pgm_read_word s BOOTLOADER_FUNC_ADDRESS) else None)"
    by (simp add: exitBootloader_def Let_def jump_target_def rd)
  have 3: "a_main_entry pinb s = Continue (LEDOFF (LEDON s))" if "\<forall>j < 3000000. asserted pinb j"
  proof -
    obtain n s1 where b: "bootcheck_loop pinb 0 s = (n, s1)" by (cases "bootcheck_loop pinb 0 s")
    then have "3000000 \<le> n" "s1 = LEDON s" using bootcheck_counter [OF that, of s] by simp_all
    then show ?thesis using b by (simp add: a_main_entry_def Let_def)
  qed
  show ?thesis using 1 2 3 by auto
qed

text \<open>
  On an erased flash the saved entry reads \<open>0xFFFF\<close>: a request released at the sixth
  read exits there, a request held for ever enters the command loop.
\<close>

theorem entry_dwell_witness:
  "\<not> asserted tapped_pin 5
   \<and> jump_target (a_main_entry tapped_pin blank_state) = Some 0xFFFF
   \<and> asserted held_pin 0
   \<and> a_main_entry held_pin blank_state = Continue (LEDOFF (LEDON blank_state))"
proof -
  have a: "\<not> asserted tapped_pin 5" "\<forall>j < 5. asserted tapped_pin j"
    by (simp_all add: asserted_def tapped_pin_def BOOTCHECKPIN_def)
  have h: "\<forall>j < 3000000. asserted held_pin j" "asserted held_pin 0"
    by (simp_all add: asserted_def held_pin_def)
  have r: "pgm_read_word blank_state BOOTLOADER_FUNC_ADDRESS = 0xFFFF"
    by (simp add: pgm_read_word_def pgm_read_byte_def blank_state_def)
  note T = entry_dwell [of 5 tapped_pin blank_state]
  note U = entry_dwell [of 5 held_pin blank_state]
  have k: "(5 :: nat) < 3000000" by simp
  have nz: "pgm_read_word blank_state BOOTLOADER_FUNC_ADDRESS \<noteq> 0" by (simp add: r)
  have "jump_target (a_main_entry tapped_pin blank_state)
      = Some (pgm_read_word blank_state BOOTLOADER_FUNC_ADDRESS)"
    using T k a nz by blast
  then have 1: "jump_target (a_main_entry tapped_pin blank_state) = Some 0xFFFF"
    by (simp only: r)
  have 2: "a_main_entry held_pin blank_state = Continue (LEDOFF (LEDON blank_state))"
    using U h(1) by blast
  show ?thesis using a(1) h(2) 1 2 by simp
qed

text \<open>
  Claim C8 as it is written fails where the saved entry is null: the request is never
  asserted, and the controller does not exit to the application.
\<close>

theorem entry_dwell_counterexample:
  "\<not> asserted released_pin 0
   \<and> jump_target (a_main_entry released_pin null_entry_state) = None"
  by (simp add: asserted_def released_pin_def BOOTCHECKPIN_def a_main_entry_def
      bootcheck_released exitBootloader_def Let_def jump_target_def
      pgm_read_word_def pgm_read_byte_def null_entry_state_def LEDOFF_def)

section \<open>The decoder\<close>


lemma receive_bits_done:
  "\<not> n < 568 \<Longrightarrow> receive_bits n k dp p d frame g = Some (frame, g)"
  by (subst receive_bits.simps) (simp add: FRAMESIZE_def SPM_PAGESIZE_def DATAPAGESTART_def)

lemma receive_bits_step:
  "n < 568 \<Longrightarrow> receive_bits n k dp p d frame g =
     do {
       g1 \<leftarrow> wait_for_edge p g;
       (p1, g2) \<leftarrow> read_pin g1;
       g3 \<leftarrow> wait_delay d g2;
       (t, g4) \<leftarrow> read_pin g3;
       receive_bits (n + 1) (if k - 1 = 0 then 8 else k - 1) (if k - 1 = 0 then dp + 1 else dp) t d
         (frame(unat dp := push_bit 1 (frame (unat dp)) OR of_bool (p1 \<noteq> t))) g4
     }"
  by (subst receive_bits.simps)
     (auto simp add: FRAMESIZE_def SPM_PAGESIZE_def DATAPAGESTART_def Let_def
       intro!: Option.bind_cong split: prod.splits)

lemma counters_step:
  assumes "n < 568" "unat (dp :: u8) = n div 8" "unat (k :: u8) = 8 - n mod 8"
  shows "unat (if k - 1 = 0 then dp + 1 else dp) = (n + 1) div 8"
    and "unat (if k - 1 = 0 then 8 else k - 1) = 8 - (n + 1) mod 8"
proof -
  have k1: "1 \<le> unat k" using assms(3) by arith
  then have "(1 :: u8) \<le> k" by (simp add: word_le_nat_alt)
  then have km: "unat (k - 1) = unat k - 1" by (simp add: unat_sub)
  have z: "(k - 1 = 0) = (n mod 8 = 7)"
  proof -
    have "(k - 1 = 0) = (unat (k - 1) = 0)" by (simp add: unat_eq_0)
    also have "\<dots> = (n mod 8 = 7)" using km assms(3) by arith
    finally show ?thesis .
  qed
  have dp: "unat (dp + 1) = unat dp + 1"
    using assms(1,2) by (simp add: unat_word_ariths take_bit_eq_mod)
  have d7: "n mod 8 = 7 \<Longrightarrow> (n + 1) div 8 = n div 8 + 1 \<and> (n + 1) mod 8 = 0"
    and d0: "n mod 8 \<noteq> 7 \<Longrightarrow> (n + 1) div 8 = n div 8 \<and> (n + 1) mod 8 = n mod 8 + 1"
    by presburger+
  show "unat (if k - 1 = 0 then dp + 1 else dp) = (n + 1) div 8"
    using z dp assms(2) d7 d0 by (cases "n mod 8 = 7") simp_all
  show "unat (if k - 1 = 0 then 8 else k - 1) = 8 - (n + 1) mod 8"
    using z km assms(3) d7 d0 by (cases "n mod 8 = 7") simp_all
qed

lemma receive_bits_push:
  assumes "n + m = 568" "unat dp = n div 8" "unat k = 8 - n mod 8"
  shows "receive_bits n k dp p d frame g =
     (case cell_samples m p d g of
        None \<Rightarrow> None
      | Some (cells, g') \<Rightarrow> Some (push_bits n (map cell_bit cells) frame, g'))"
  using assms
proof (induction m arbitrary: n k dp p frame g)
  case 0
  then show ?case by (simp add: receive_bits_done)
next
  case (Suc m)
  then have lt: "n < 568" by simp
  note cs = counters_step [OF lt Suc.prems(2,3)]
  have nm: "n + 1 + m = 568" using Suc.prems(1) by simp
  show ?case
    unfolding receive_bits_step [OF lt] cell_samples.simps Suc.IH [OF nm cs]
    by (auto simp add: Suc.prems(2) cell_bit_def
        split: bind_splits option.splits prod.splits)
qed







lemma receiveFrame_eq:
  "receiveFrame frame g =
     (case preamble g of
        None \<Rightarrow> None
      | Some (p, delayTime, g0) \<Rightarrow>
          (case cell_samples (FRAMESIZE * 8) p delayTime g0 of
             None \<Rightarrow> None
           | Some (cells, g') \<Rightarrow> Some (true, push_bits 0 (map cell_bit cells) frame, g')))"
proof -
  have "receive_bits 0 8 0 p d frame g0 =
     (case cell_samples 568 p d g0 of
        None \<Rightarrow> None
      | Some (cells, g') \<Rightarrow> Some (push_bits 0 (map cell_bit cells) frame, g'))" for p d g0
    by (rule receive_bits_push) simp_all
  then show ?thesis
    by (simp add: receiveFrame_def FRAMESIZE_def SPM_PAGESIZE_def DATAPAGESTART_def
        split: option.splits prod.splits bind_splits)
qed

lemma command_step_received:
  "receiveFrame (FrameData s) g = Some (r, f, g') \<Longrightarrow>
     command_step s g =
       Some (if r = 0 then Blink (s\<lparr>FrameData := f\<rparr>)
             else Dispatched (dispatch (s\<lparr>FrameData := f\<rparr>)), g')"
  by (simp add: command_step_def Let_def)




text \<open>The decoder reads back what the line code of \<open>encode_cells\<close> carries.\<close>

lemma pin_levels:
  "p = 0 \<or> p = INPUTAUDIOPIN \<Longrightarrow> p XOR INPUTAUDIOPIN \<noteq> p
     \<and> (p XOR INPUTAUDIOPIN = 0 \<or> p XOR INPUTAUDIOPIN = INPUTAUDIOPIN)
     \<and> p AND INPUTAUDIOPIN = p"
  by (auto simp add: INPUTAUDIOPIN_def)

lemma cell_samples_encode:
  assumes "\<not> ucast dv < d"
  shows "p = 0 \<or> p = INPUTAUDIOPIN \<Longrightarrow>
     \<exists>cells. cell_samples (length bs) p d
        \<lparr>pin_reads = encode_cells p bs @ rest, timer_reads = replicate (length bs) dv @ trest\<rparr>
        = Some (cells, \<lparr>pin_reads = rest, timer_reads = trest\<rparr>)
      \<and> map cell_bit cells = bs"
proof (induction bs arbitrary: p)
  case Nil
  then show ?case by simp
next
  case (Cons b bs)
  define e where "e = p XOR INPUTAUDIOPIN"
  define t where "t = (if b then e XOR INPUTAUDIOPIN else e)"
  have e: "e \<noteq> p" "e = 0 \<or> e = INPUTAUDIOPIN"
    using pin_levels [OF Cons.prems] by (simp_all add: e_def)
  have e3: "e AND INPUTAUDIOPIN = e"
    using pin_levels [OF e(2)] by simp
  have t: "t = 0 \<or> t = INPUTAUDIOPIN" "t AND INPUTAUDIOPIN = t" "(e \<noteq> t) = b"
    using pin_levels [OF e(2)] e(2) by (auto simp add: t_def)
  from Cons.IH [OF t(1)] obtain cells where
    c: "cell_samples (length bs) t d
        \<lparr>pin_reads = encode_cells t bs @ rest, timer_reads = replicate (length bs) dv @ trest\<rparr>
        = Some (cells, \<lparr>pin_reads = rest, timer_reads = trest\<rparr>)"
    and m: "map cell_bit cells = bs" by blast
  have "cell_samples (length (b # bs)) p d
        \<lparr>pin_reads = encode_cells p (b # bs) @ rest,
          timer_reads = replicate (length (b # bs)) dv @ trest\<rparr>
        = Some ((e, t) # cells, \<lparr>pin_reads = rest, timer_reads = trest\<rparr>)"
    using e e3 t(2) assms c
    by (simp add: Let_def e_def [symmetric] t_def [symmetric] wait_for_edge_def read_pin_def
        wait_delay_def)
  moreover have "map cell_bit ((e, t) # cells) = b # bs"
    using m t(3) by (simp add: cell_bit_def)
  ultimately show ?case by (intro exI [of _ "(e, t) # cells"] conjI)
qed

lemma sync_loop_step:
  "n < 16 \<Longrightarrow> p \<noteq> e AND INPUTAUDIOPIN \<Longrightarrow>
     sync_loop n p time \<lparr>pin_reads = e # q # pins, timer_reads = tv # timers\<rparr> =
     sync_loop (n + 1) (q AND INPUTAUDIOPIN) (if n \<ge> 8 then time + ucast tv else time)
       \<lparr>pin_reads = pins, timer_reads = timers\<rparr>"
  by (subst sync_loop.simps) (simp add: wait_for_edge_def read_pin_def read_timer_def)

lemma sync_loop_done:
  "\<not> n < 16 \<Longrightarrow> sync_loop n p time g = Some (time, p, g)"
  by (subst sync_loop.simps) simp

lemma preamble_test_signal:
  "preamble test_signal =
     Some (0, 30, \<lparr>pin_reads = encode_cells 0 test_bits, timer_reads = replicate 568 30\<rparr>)"
  apply (simp add: preamble_def test_signal_def read_pin_def wait_for_edge_def INPUTAUDIOPIN_def)
  apply (simp add: sync_loop_step sync_loop_done INPUTAUDIOPIN_def wait_delay_def)
  apply (subst startbit_loop.simps)
  apply (simp add: read_pin_def INPUTAUDIOPIN_def)
  done

lemma test_bits_props:
  "length test_bits = 568" "test_bits ! 6" "\<not> test_bits ! 0"
  by (simp_all add: test_bits_def nth_append)

lemma test_signal_cells:
  "\<exists>cells. cell_samples (FRAMESIZE * 8) 0 30
        \<lparr>pin_reads = encode_cells 0 test_bits, timer_reads = replicate 568 30\<rparr>
        = Some (cells, \<lparr>pin_reads = [], timer_reads = []\<rparr>)
      \<and> map cell_bit cells = test_bits"
proof -
  have "\<not> ucast (30 :: u8) < (30 :: u16)" by simp
  from cell_samples_encode [OF this, of 0 test_bits "[]" "[]"]
  show ?thesis
    by (simp add: test_bits_props(1) FRAMESIZE_def SPM_PAGESIZE_def DATAPAGESTART_def)
qed

lemma test_signal_received:
  "\<exists>cells. receiveFrame frame test_signal =
      Some (true, push_bits 0 (map cell_bit cells) frame, \<lparr>pin_reads = [], timer_reads = []\<rparr>)
    \<and> map cell_bit cells = test_bits"
proof -
  from test_signal_cells obtain cells where
    c: "cell_samples (FRAMESIZE * 8) 0 30
        \<lparr>pin_reads = encode_cells 0 test_bits, timer_reads = replicate 568 30\<rparr>
        = Some (cells, \<lparr>pin_reads = [], timer_reads = []\<rparr>)"
    and m: "map cell_bit cells = test_bits" by blast
  have "receiveFrame frame test_signal =
      Some (true, push_bits 0 (map cell_bit cells) frame, \<lparr>pin_reads = [], timer_reads = []\<rparr>)"
    unfolding receiveFrame_eq preamble_test_signal using c by simp
  then show ?thesis using m by blast
qed

text \<open>
  Claim C6. Whenever \<open>receiveFrame\<close> returns, on whatever signal, it returns \<open>true\<close>,
  which is not zero; so a round of the command loop never takes the branch that blinks
  for ever.
\<close>

theorem receiveFrame_always_true:
  "(receiveFrame frame g = Some (r, frame', g') \<longrightarrow> r = true \<and> r \<noteq> 0)
   \<and> command_step s g \<noteq> Some (Blink s', g')"
proof -
  have a: "r = true \<and> r \<noteq> 0" if "receiveFrame frame g = Some (r, frame', g')" for r frame frame' g'
    using that by (auto simp add: receiveFrame_def true_def split: bind_splits)
  have "command_step s g \<noteq> Some (Blink s', g')"
  proof (cases "receiveFrame (FrameData s) g")
    case None
    then show ?thesis by (simp add: command_step_def)
  next
    case (Some x)
    obtain r f g1 where x: "x = (r, f, g1)" by (cases x)
    then have "r \<noteq> 0" using a Some by blast
    then show ?thesis using Some x by (simp add: command_step_def Let_def)
  qed
  then show ?thesis using a by blast
qed

text \<open>On \<open>test_signal\<close> the reception completes and the frame is dispatched.\<close>

theorem receiveFrame_always_true_witness:
  "map_option fst (receiveFrame (FrameData blank_state) test_signal) = Some true
   \<and> (\<exists>out g'. command_step blank_state test_signal = Some (Dispatched out, g'))"
proof -
  obtain r frame' g' where
    R: "receiveFrame (FrameData blank_state) test_signal = Some (r, frame', g')"
    using test_signal_received [of "FrameData blank_state"] by blast
  have "r = true"
    using receiveFrame_always_true [of "FrameData blank_state" test_signal r frame' g'] R by blast
  then have 1: "map_option fst (receiveFrame (FrameData blank_state) test_signal) = Some true"
    using R by simp
  obtain res where S: "command_step blank_state test_signal = Some (res, g')"
    using command_step_received [OF R] by blast
  have "res \<noteq> Blink s'" for s'
    using receiveFrame_always_true [of "FrameData blank_state" test_signal r frame' g'
        blank_state s'] S by auto
  then obtain out where "res = Dispatched out" by (cases res) auto
  then show ?thesis using 1 S by blast
qed



end
